theory Spec2Isabelle
  imports Main "HOL-Library.Word"
begin

unbundle bit_operations_syntax

section \<open>Data model of ini.h\<close>

text \<open>
  The three structs of ini.h. A singly linked list (\<open>next\<close> pointers, \<open>NULL\<close> at the end)
  is a HOL list; a nullable \<open>char*\<close> is a \<open>string option\<close>; a C string is the list of
  its bytes before the terminating NUL, so it holds no NUL byte.

  \<open>struct inipair {next; key; val}\<close>: \<open>val\<close> may be \<open>NULL\<close>, \<open>key\<close> never is
  (\<open>makepair\<close> refuses a \<open>NULL\<close> key).

  \<open>struct inisection {name; head; next}\<close>: \<open>makesection\<close> refuses a \<open>NULL\<close> name, and
  \<open>makeini\<close> gives the default section the name \<open>NULL\<close>. The model keeps this in the
  types: a member of the section list is an \<open>inisection\<close> with a name, the default
  section is its pair list alone, and wherever the C code hands out a section's name
  (\<open>ini_foreach\<close>) the default section's name is \<open>None\<close>.
  The list field \<open>head\<close> of a section is \<open>pair_head\<close>, the one of a file is \<open>sec_head\<close>.

  \<open>struct inifile {head; default_section; flags}\<close>: a file structure is one that
  \<open>makeini\<close> has made, so neither the pointer to it nor its default section is \<open>NULL\<close>;
  the checks \<open>ini == NULL\<close> of the library have no counterpart in the model.

  \<open>calloc\<close> and \<open>strdup\<close> are taken to succeed, and a pair or section handed to an
  insertion is a fresh node that is not yet part of any list.
\<close>

record inipair =
  key :: string
  val :: "string option"

record inisection =
  name :: string
  pair_head :: "inipair list"

record inifile =
  sec_head :: "inisection list"
  default_section :: "inipair list"
  flags :: "32 word"

text \<open>\<open>enum INI_OPT\<close>.\<close>

definition INIO_NONE :: "32 word" where
  "INIO_NONE = 0"

definition INIO_SPACE_AROUND_DELIM :: "32 word" where
  "INIO_SPACE_AROUND_DELIM = push_bit 0 1"

definition INIO_ALLOW_EMPTY :: "32 word" where
  "INIO_ALLOW_EMPTY = push_bit 1 1"

definition INIO_ALL :: "32 word" where
  "INIO_ALL = 0xFFFFFFFF"

text \<open>
  A pointer into a list is the position of the node it points to. A section pointer is
  either the default section or a position in the section list; a pair pointer is a
  section pointer and a position in that section's pair list.
\<close>

datatype secref = Default_section | Named_section nat

type_synonym pairref = "secref \<times> nat"

text \<open>
  \<open>strcmp\<close>: the C standard fixes only the sign of the result, so the model returns
  \<open>-1\<close>, \<open>0\<close> or \<open>1\<close>; bytes compare as \<open>unsigned char\<close>.
\<close>

fun strcmp :: "string \<Rightarrow> string \<Rightarrow> int" where
  "strcmp [] [] = 0"
| "strcmp [] (b # bs) = -1"
| "strcmp (a # as) [] = 1"
| "strcmp (a # as) (b # bs) =
     (if a = b then strcmp as bs
      else if (of_char a :: nat) < of_char b then -1 else 1)"

section \<open>Constructors\<close>

definition makesection :: "string option \<Rightarrow> inisection option" where
  "makesection nm =
     (case nm of
        None \<Rightarrow> None
      | Some n \<Rightarrow> Some \<lparr>name = n, pair_head = []\<rparr>)"

definition makeini :: "32 word \<Rightarrow> inifile" where
  "makeini fl = \<lparr>sec_head = [], default_section = [], flags = fl\<rparr>"

definition makepair :: "string option \<Rightarrow> string option \<Rightarrow> inipair option" where
  "makepair k v =
     (case k of
        None \<Rightarrow> None
      | Some k' \<Rightarrow> Some \<lparr>key = k', val = v\<rparr>)"

section \<open>Sorted insertion\<close>

text \<open>
  The \<open>while (curr->next != NULL)\<close> loop of \<open>section_insert\<close>, started at \<open>curr\<close>, on
  the list from \<open>curr\<close> on. The result is the position of the returned node, counted
  from \<open>curr\<close>, and the list from \<open>curr\<close> on after the call. The loop is left when
  \<open>curr\<close> is the last node, and the new node is linked behind it (second equation).
  The first equation is the branch \<open>file->head == NULL\<close>, taken before the loop.
\<close>

fun section_insert_loop :: "inisection list \<Rightarrow> inisection \<Rightarrow> nat \<times> inisection list" where
  "section_insert_loop [] sec = (0, [sec])"
| "section_insert_loop [cur] sec = (1, [cur, sec])"
| "section_insert_loop (cur # nxt # rest) sec =
     (let s = strcmp (name sec) (name cur) in
      if s < 0 then (0, sec # cur # nxt # rest)
      else if s = 0 then (0, cur # nxt # rest)
      else (case section_insert_loop (nxt # rest) sec of
              (i, l) \<Rightarrow> (Suc i, cur # l)))"

text \<open>
  \<open>section_insert(file, sec)\<close>: \<open>NULL\<close> for a \<open>NULL\<close> section; otherwise the pointer
  returned, which is \<open>sec\<close> or the section found with the same name, and the file with
  its list after the call.
\<close>

definition section_insert :: "inifile \<Rightarrow> inisection option \<Rightarrow> secref option \<times> inifile" where
  "section_insert file sec =
     (case sec of
        None \<Rightarrow> (None, file)
      | Some s \<Rightarrow>
          (case section_insert_loop (sec_head file) s of
             (i, l) \<Rightarrow> (Some (Named_section i), file\<lparr>sec_head := l\<rparr>)))"

text \<open>The loop of \<open>pair_insert\<close>, in the same way.\<close>

fun pair_insert_loop :: "inipair list \<Rightarrow> inipair \<Rightarrow> nat \<times> inipair list" where
  "pair_insert_loop [] pair = (0, [pair])"
| "pair_insert_loop [cur] pair = (1, [cur, pair])"
| "pair_insert_loop (cur # nxt # rest) pair =
     (let s = strcmp (key pair) (key cur) in
      if s < 0 then (0, pair # cur # nxt # rest)
      else if s = 0 then (0, pair # nxt # rest)
      else (case pair_insert_loop (nxt # rest) pair of
              (i, l) \<Rightarrow> (Suc i, cur # l)))"

text \<open>
  \<open>pair_insert(sec, pair)\<close> on the pair list of the section: the position of the
  returned pair (\<open>None\<close> for \<open>NULL\<close>) and the section's list after the call.
\<close>

definition pair_insert :: "inipair list \<Rightarrow> inipair option \<Rightarrow> nat option \<times> inipair list" where
  "pair_insert ps pair =
     (case pair of
        None \<Rightarrow> (None, ps)
      | Some p \<Rightarrow>
          (case pair_insert_loop ps p of (i, l) \<Rightarrow> (Some i, l)))"


section \<open>Lookup\<close>

text \<open>The \<open>for\<close> loop of \<open>ini_getsection\<close>: the first section whose name compares equal.\<close>

fun getsection_loop :: "inisection list \<Rightarrow> string \<Rightarrow> nat option" where
  "getsection_loop [] nm = None"
| "getsection_loop (s # ss) nm =
     (if 0 = strcmp nm (name s) then Some 0
      else map_option Suc (getsection_loop ss nm))"

definition ini_getsection :: "inifile \<Rightarrow> string option \<Rightarrow> secref option" where
  "ini_getsection ini nm =
     (case nm of
        None \<Rightarrow> Some Default_section
      | Some n \<Rightarrow> map_option Named_section (getsection_loop (sec_head ini) n))"

fun getpair_loop :: "inipair list \<Rightarrow> string \<Rightarrow> nat option" where
  "getpair_loop [] k = None"
| "getpair_loop (p # ps) k =
     (if 0 = strcmp k (key p) then Some 0
      else map_option Suc (getpair_loop ps k))"

text \<open>\<open>inisection_getpair(section, key)\<close> on the pair list of the section.\<close>

definition inisection_getpair :: "inipair list \<Rightarrow> string option \<Rightarrow> nat option" where
  "inisection_getpair ps k =
     (case k of
        None \<Rightarrow> None
      | Some k' \<Rightarrow> getpair_loop ps k')"

text \<open>
  Reading and writing \<open>s->head\<close> through a section pointer. A position past the end of
  the section list is a dangling pointer; no function of the library returns one
  (\<open>ini_getsection_in_range\<close>, \<open>section_insert_in_range\<close> below).
\<close>

fun sec_pairs :: "inifile \<Rightarrow> secref \<Rightarrow> inipair list" where
  "sec_pairs ini Default_section = default_section ini"
| "sec_pairs ini (Named_section i) =
     (if i < length (sec_head ini) then pair_head (sec_head ini ! i) else [])"

fun set_sec_pairs :: "inifile \<Rightarrow> secref \<Rightarrow> inipair list \<Rightarrow> inifile" where
  "set_sec_pairs ini Default_section ps = ini\<lparr>default_section := ps\<rparr>"
| "set_sec_pairs ini (Named_section i) ps =
     (if i < length (sec_head ini)
      then ini\<lparr>sec_head := (sec_head ini)[i := (sec_head ini ! i)\<lparr>pair_head := ps\<rparr>]\<rparr>
      else ini)"

text \<open>A section pointer that points into the file.\<close>

fun valid_ref :: "inifile \<Rightarrow> secref \<Rightarrow> bool" where
  "valid_ref ini Default_section = True"
| "valid_ref ini (Named_section i) = (i < length (sec_head ini))"

text \<open>The pair a pair pointer points to, if it points into the file.\<close>

definition pair_at :: "inifile \<Rightarrow> pairref \<Rightarrow> inipair option" where
  "pair_at ini r =
     (case r of (s, i) \<Rightarrow>
        if i < length (sec_pairs ini s) then Some (sec_pairs ini s ! i) else None)"

definition ini_getpair :: "inifile \<Rightarrow> string option \<Rightarrow> string option \<Rightarrow> pairref option" where
  "ini_getpair ini section k =
     (case ini_getsection ini section of
        None \<Rightarrow> None
      | Some s \<Rightarrow> map_option (Pair s) (inisection_getpair (sec_pairs ini s) k))"

text \<open>
  \<open>pair_insert\<close> called with a section pointer into a file: the \<open>sec == NULL\<close> check, and
  the list of the section the pointer names is replaced by the one after the call.
\<close>

definition pair_insert_ref ::
  "inifile \<Rightarrow> secref option \<Rightarrow> inipair option \<Rightarrow> pairref option \<times> inifile" where
  "pair_insert_ref ini sec pair =
     (case sec of
        None \<Rightarrow> (None, ini)
      | Some s \<Rightarrow>
          (case pair_insert (sec_pairs ini s) pair of
             (None, ps) \<Rightarrow> (None, ini)
           | (Some i, ps) \<Rightarrow> (Some (s, i), set_sec_pairs ini s ps)))"

section \<open>Traversal\<close>

text \<open>
  \<open>ini_foreach\<close>: the callback is called for its effect, so it is a function on a state
  of the caller; it receives the name of the section (\<open>None\<close> for the default section)
  and the pair.
\<close>

fun foreach_pairs ::
  "(string option \<Rightarrow> inipair \<Rightarrow> 'a \<Rightarrow> 'a) \<Rightarrow> string option \<Rightarrow> inipair list \<Rightarrow> 'a \<Rightarrow> 'a" where
  "foreach_pairs cb nm [] st = st"
| "foreach_pairs cb nm (p # ps) st = foreach_pairs cb nm ps (cb nm p st)"

fun foreach_sections ::
  "(string option \<Rightarrow> inipair \<Rightarrow> 'a \<Rightarrow> 'a) \<Rightarrow> inisection list \<Rightarrow> 'a \<Rightarrow> 'a" where
  "foreach_sections cb [] st = st"
| "foreach_sections cb (s # ss) st =
     foreach_sections cb ss (foreach_pairs cb (Some (name s)) (pair_head s) st)"

definition ini_foreach ::
  "inifile \<Rightarrow> (string option \<Rightarrow> inipair \<Rightarrow> 'a \<Rightarrow> 'a) \<Rightarrow> 'a \<Rightarrow> 'a" where
  "ini_foreach ini cb st =
     foreach_sections cb (sec_head ini) (foreach_pairs cb None (default_section ini) st)"

definition parseini ::
  "inifile \<Rightarrow> (string option \<Rightarrow> inipair \<Rightarrow> 'a \<Rightarrow> 'a) \<Rightarrow> 'a \<Rightarrow> 'a" where
  "parseini ini cb st = ini_foreach ini cb st"

text \<open>The callback that records what it is given: the traversal as a sequence of triples.\<close>

definition record_triple ::
  "string option \<Rightarrow> inipair \<Rightarrow> (string option \<times> string \<times> string option) list
     \<Rightarrow> (string option \<times> string \<times> string option) list" where
  "record_triple nm p acc = acc @ [(nm, key p, val p)]"

definition traversal :: "inifile \<Rightarrow> (string option \<times> string \<times> string option) list" where
  "traversal ini = ini_foreach ini record_triple []"

section \<open>Changing values\<close>

text \<open>
  \<open>pair_setval\<close>: the new \<open>pair->val\<close>, which is also the result. \<open>ini_put\<close> and
  \<open>ini_set\<close> return a pointer to a pair and the file structure after the call; the
  position that \<open>inisection_getpair\<close> gives is within the list (\<open>getpair_loop_Some\<close>
  below).
\<close>

definition pair_setval :: "inipair \<Rightarrow> string option \<Rightarrow> string option \<times> inipair" where
  "pair_setval pair v = (v, pair\<lparr>val := v\<rparr>)"


definition ini_set ::
  "inifile \<Rightarrow> string option \<Rightarrow> string option \<Rightarrow> string option \<Rightarrow> pairref option \<times> inifile" where
  "ini_set ini section k v =
     (case k of
        None \<Rightarrow> (None, ini)
      | Some _ \<Rightarrow>
          (case ini_getsection ini section of
             None \<Rightarrow> (None, ini)
           | Some s \<Rightarrow>
               (case inisection_getpair (sec_pairs ini s) k of
                  None \<Rightarrow> (None, ini)
                | Some i \<Rightarrow>
                    (case pair_setval (sec_pairs ini s ! i) v of
                       (r, p) \<Rightarrow>
                         (if r = None then None else Some (s, i),
                          set_sec_pairs ini s ((sec_pairs ini s)[i := p]))))))"


section \<open>Writer\<close>

text \<open>
  \<open>writeinitofile\<close>: the file is the text written so far, and every \<open>fprintf\<close> appends
  to it. \<open>fopen(filename, "w")\<close> succeeds on the paths the parameter \<open>writable\<close> accepts.
  The result is the return value and the text of the file, if it was opened.
\<close>

abbreviation newline :: char where
  "newline \<equiv> CHR 0x0A"

text \<open>The \<open>for\<close> loop over the pairs of one section.\<close>

fun write_pairs :: "32 word \<Rightarrow> inipair list \<Rightarrow> string \<Rightarrow> string" where
  "write_pairs fl [] outfile = outfile"
| "write_pairs fl (p # ps) outfile =
     write_pairs fl ps
       (case val p of
          Some v \<Rightarrow> outfile @ key p @ ''='' @ v @ [newline]
        | None \<Rightarrow>
            if fl AND INIO_ALLOW_EMPTY \<noteq> 0 then outfile @ key p @ ''='' @ [newline]
            else outfile)"

text \<open>The \<open>for\<close> loop over the named sections.\<close>

fun write_sections :: "32 word \<Rightarrow> inisection list \<Rightarrow> string \<Rightarrow> string" where
  "write_sections fl [] outfile = outfile"
| "write_sections fl (s # ss) outfile =
     write_sections fl ss
       (if pair_head s = [] then outfile
        else write_pairs fl (pair_head s) (outfile @ ''['' @ name s @ '']'' @ [newline])
               @ [newline])"

definition writeinitofile ::
  "inifile \<Rightarrow> string option \<Rightarrow> (string \<Rightarrow> bool) \<Rightarrow> int \<times> string option" where
  "writeinitofile ini filename writable =
     (case filename of
        None \<Rightarrow> (1, None)
      | Some fn \<Rightarrow>
          if \<not> writable fn then (1, None)
          else (0, Some (write_sections (flags ini) (sec_head ini)
                           (write_pairs (flags ini) (default_section ini) [] @ [newline]))))"

section \<open>Reading lines\<close>

text \<open>
  An input stream: the bytes not yet read, the number of bytes the device still delivers
  before a read fails (\<open>None\<close>: it never fails), and the end-of-file and error
  indicators that \<open>feof\<close> and \<open>ferror\<close> test.
\<close>

record FILE =
  unread :: string
  fail_after :: "nat option"
  eof_ind :: bool
  err_ind :: bool

text \<open>
  The bytes \<open>fgets\<close> stores when it may store \<open>m\<close> of them: up to and with the first
  newline, or \<open>m\<close> bytes, or all that is left.
\<close>

fun read_line :: "nat \<Rightarrow> string \<Rightarrow> string" where
  "read_line 0 s = []"
| "read_line (Suc m) [] = []"
| "read_line (Suc m) (c # s) = (if c = newline then [c] else c # read_line m s)"

text \<open>
  \<open>fgets(buf, n, f)\<close>. It stops without a further read when the buffer is full or a
  newline was stored; otherwise it has tried to read past the last byte and met the end
  of the file. A failing read sets the error indicator and gives \<open>NULL\<close>, whatever was
  read before; the end of the file with nothing read sets the end-of-file indicator and
  gives \<open>NULL\<close>.
\<close>

definition fgets :: "nat \<Rightarrow> FILE \<Rightarrow> string option \<times> FILE" where
  "fgets n f =
     (let line = read_line (n - 1) (unread f);
          full = (length line = n - 1 \<or> (line \<noteq> [] \<and> last line = newline));
          reads = (if full then length line else Suc (length line))
      in case fail_after f of
           Some k \<Rightarrow>
             if k < reads
             then (None, f\<lparr>unread := drop k (unread f), fail_after := Some 0, err_ind := True\<rparr>)
             else if full
             then (Some line, f\<lparr>unread := drop (length line) (unread f),
                                 fail_after := Some (k - length line)\<rparr>)
             else (if line = [] then None else Some line,
                   f\<lparr>unread := [], fail_after := Some (k - length line), eof_ind := True\<rparr>)
         | None \<Rightarrow>
             if full
             then (Some line, f\<lparr>unread := drop (length line) (unread f)\<rparr>)
             else (if line = [] then None else Some line,
                   f\<lparr>unread := [], eof_ind := True\<rparr>))"

text \<open>
  The file system as the library sees it when it opens a path for reading: no file, or
  the content and the point where the device fails. A stream starts with both
  indicators clear.
\<close>

definition fopen_r :: "(string \<Rightarrow> (string \<times> nat option) option) \<Rightarrow> string \<Rightarrow> FILE option" where
  "fopen_r fs fn =
     (case fs fn of
        None \<Rightarrow> None
      | Some (content, k) \<Rightarrow>
          Some \<lparr>unread = content, fail_after = k, eof_ind = False, err_ind = False\<rparr>)"

section \<open>sscanf\<close>

text \<open>
  The formats of ini.c use three kinds of directive: white space (skips any white space,
  also none), an ordinary character (must be the next byte), and \<open>%N[^...]\<close> (the
  longest run of at most \<open>N\<close> bytes outside the set, at least one, stored in the next
  argument).
\<close>

datatype directive = WS | Lit char | Scanset nat "char list"

text \<open>\<open>isspace\<close> in the C locale.\<close>

definition isspace :: "char \<Rightarrow> bool" where
  "isspace c \<longleftrightarrow>
     c \<in> set [CHR '' '', CHR 0x09, CHR 0x0A, CHR 0x0B, CHR 0x0C, CHR 0x0D]"

text \<open>
  The result of \<open>sscanf\<close>: \<open>EOF\<close>, or the strings assigned, in order; the return
  value is their number.
\<close>

datatype scan_result = ScanEOF | Assigned "string list"

definition rval :: "scan_result \<Rightarrow> int" where
  "rval r = (case r of ScanEOF \<Rightarrow> -1 | Assigned xs \<Rightarrow> int (length xs))"

text \<open>
  An input failure (the end of the string where a byte is needed) gives \<open>EOF\<close> if it
  comes before the first conversion has completed, and the number of assignments after.
\<close>

definition input_failure :: "string list \<Rightarrow> scan_result" where
  "input_failure got = (if got = [] then ScanEOF else Assigned got)"

fun sscanf_run :: "directive list \<Rightarrow> string \<Rightarrow> string list \<Rightarrow> scan_result" where
  "sscanf_run [] s got = Assigned got"
| "sscanf_run (WS # ds) s got = sscanf_run ds (dropWhile isspace s) got"
| "sscanf_run (Lit c # ds) s got =
     (case s of
        [] \<Rightarrow> input_failure got
      | x # s' \<Rightarrow> if x = c then sscanf_run ds s' got else Assigned got)"
| "sscanf_run (Scanset w excl # ds) s got =
     (let m = take w (takeWhile (\<lambda>x. x \<notin> set excl) s) in
      if m = [] then (if s = [] then input_failure got else Assigned got)
      else sscanf_run ds (drop (length m) s) (got @ [m]))"

text \<open>A \<open>char\<close> buffer read as a C string ends at its first NUL byte.\<close>

definition c_str :: "string \<Rightarrow> string" where
  "c_str buf = takeWhile (\<lambda>c. c \<noteq> CHR 0x00) buf"

definition sscanf :: "string \<Rightarrow> directive list \<Rightarrow> scan_result" where
  "sscanf buf fmt = sscanf_run fmt (c_str buf) []"

text \<open>
  The four formats: \<open>" [%256[^]]]"\<close> for a section header,
  \<open>" %256[^=; ] = %256[^\n] "\<close> (\<open>fmt_spaces\<close>), \<open>" %256[^=; ]=%256[^ \n] "\<close>
  (\<open>fmt_no_spaces\<close>) and \<open>" %256[^=; ] \n"\<close> for a key alone. \<open>sscanf_run\<close> gives
  the bytes each conversion matches, at most 256; what storing them does to the buffers
  of the caller is the matter of \<open>overflows\<close> below.
\<close>

definition fmt_section :: "directive list" where
  "fmt_section = [WS, Lit CHR ''['', Scanset 256 '']'', Lit CHR '']'']"

definition fmt_spaces :: "directive list" where
  "fmt_spaces =
     [WS, Scanset 256 ''=; '', WS, Lit CHR ''='', WS, Scanset 256 [newline], WS]"

definition fmt_no_spaces :: "directive list" where
  "fmt_no_spaces =
     [WS, Scanset 256 ''=; '', Lit CHR ''='', Scanset 256 [CHR '' '', newline], WS]"

definition fmt_key_only :: "directive list" where
  "fmt_key_only = [WS, Scanset 256 ''=; '', WS, WS]"

section \<open>Parser\<close>

definition keyvalfmt :: "32 word \<Rightarrow> directive list" where
  "keyvalfmt fl = (if fl AND INIO_SPACE_AROUND_DELIM \<noteq> 0 then fmt_spaces else fmt_no_spaces)"

text \<open>
  The conversions store into \<open>char tmpkey[256]\<close>, \<open>tmpval[256]\<close> and
  \<open>tmpsection[256]\<close>. A field of 256 bytes fills its buffer, and \<open>sscanf\<close> writes the
  terminating NUL one byte past its end: the behaviour of the program is undefined from
  there on.
\<close>

definition overflows :: "scan_result \<Rightarrow> bool" where
  "overflows r =
     (case r of
        ScanEOF \<Rightarrow> False
      | Assigned xs \<Rightarrow> list_ex (\<lambda>x. 256 \<le> length x) xs)"

text \<open>
  The body of the \<open>while\<close> loop of \<open>loadinifromfile\<close> after a successful \<open>fgets\<close>, on
  the file and the current section \<open>tmpsec\<close>. Each \<open>continue\<close> ends the body.
  \<open>parse_line\<close> is what the body does when every field it stores is shorter than its
  buffer; \<open>loop_body\<close> below adds the other case.
\<close>

definition parse_line :: "string \<Rightarrow> inifile \<times> secref option \<Rightarrow> inifile \<times> secref option" where
  "parse_line tmpline st =
     (case st of (inif, tmpsec) \<Rightarrow>
        (case sscanf tmpline fmt_section of
           Assigned [tmpsection] \<Rightarrow>
             (case section_insert inif (makesection (Some tmpsection)) of
                (tmpsec2, inif') \<Rightarrow> (inif', tmpsec2))
         | _ \<Rightarrow>
             (case sscanf tmpline (keyvalfmt (flags inif)) of
                Assigned [tmpkey, tmpval] \<Rightarrow>
                  (snd (pair_insert_ref inif tmpsec (makepair (Some tmpkey) (Some tmpval))),
                   tmpsec)
              | _ \<Rightarrow>
                  if flags inif AND INIO_ALLOW_EMPTY \<noteq> 0
                  then (case sscanf tmpline fmt_key_only of
                          Assigned [tmpkey] \<Rightarrow>
                            (snd (pair_insert_ref inif tmpsec (makepair (Some tmpkey) None)),
                             tmpsec)
                        | _ \<Rightarrow> (inif, tmpsec))
                  else (inif, tmpsec))))"


text \<open>
  The calls of \<open>sscanf\<close> that the body makes on a line, in its order: whether one of
  them writes past its buffer. A later format is tried only if the earlier ones did not
  end the body.
\<close>

definition line_overflows :: "32 word \<Rightarrow> string \<Rightarrow> bool" where
  "line_overflows fl tmpline =
     (if overflows (sscanf tmpline fmt_section) then True
      else if 1 = rval (sscanf tmpline fmt_section) then False
      else if overflows (sscanf tmpline (keyvalfmt fl)) then True
      else if 2 = rval (sscanf tmpline (keyvalfmt fl)) then False
      else if fl AND INIO_ALLOW_EMPTY \<noteq> 0 then overflows (sscanf tmpline fmt_key_only)
      else False)"

text \<open>
  The body of the loop with its buffers: \<open>None\<close> is undefined behaviour (a write past
  \<open>tmpsection\<close>, \<open>tmpkey\<close> or \<open>tmpval\<close>), and otherwise the state after the body.
\<close>

definition loop_body ::
  "string \<Rightarrow> inifile \<times> secref option \<Rightarrow> (inifile \<times> secref option) option" where
  "loop_body tmpline st =
     (if line_overflows (flags (fst st)) tmpline then None
      else Some (parse_line tmpline st))"

text \<open>
  The \<open>while (!feof(infile) && !ferror(infile))\<close> loop. A failed \<open>fgets\<close> goes back to
  the test; it has set one of the two indicators. The loop ends on every stream: a
  successful \<open>fgets\<close> takes at least one byte. The body is \<open>parse_line\<close>, so the loop
  is the one of the program on input in which no line fills a buffer (\<open>line_overflows\<close>).
\<close>

function parse_loop ::
  "FILE \<Rightarrow> inifile \<times> secref option \<Rightarrow> (inifile \<times> secref option) \<times> FILE" where
  "parse_loop infile st =
     (if eof_ind infile \<or> err_ind infile then (st, infile)
      else (case fgets 512 infile of
              (None, infile') \<Rightarrow> parse_loop infile' st
            | (Some tmpline, infile') \<Rightarrow> parse_loop infile' (parse_line tmpline st)))"
  by pat_completeness auto
termination
proof (relation "measure (\<lambda>(f, st). 2 * length (unread f)
                            + (if eof_ind f \<or> err_ind f then 0 else 1))", goal_cases)
  case 1
  show ?case by simp
next
  case (2 infile st x y)
  have "length (read_line m s) \<le> length s" for m s
    by (induction m s rule: read_line.induct) auto
  from this [of 511 "unread infile"] 2 show ?case
    by (auto simp: fgets_def Let_def split: option.splits if_splits)
next
  case (3 infile st x y z)
  have le: "length (read_line m s) \<le> length s" for m s
    by (induction m s rule: read_line.induct) auto
  have all: "read_line m s = s"
    if "length (read_line m s) \<noteq> m"
      and "\<not> (read_line m s \<noteq> [] \<and> last (read_line m s) = newline)"
    for m s
    using that by (induction m s rule: read_line.induct) (auto split: if_splits)
  have pos: "0 < length (read_line 511 (unread infile))"
    if "read_line 511 (unread infile) \<noteq> []"
    using that by simp
  have pos2: "0 < length (unread infile)" if "unread infile \<noteq> []"
    using that by simp
  from le [of 511 "unread infile"] all [of 511 "unread infile"] pos pos2 3 show ?case
    by (auto simp del: length_greater_0_conv simp: fgets_def Let_def
          split: option.splits if_splits)
qed

declare parse_loop.simps [simp del]

text \<open>
  \<open>loadinifromfile\<close>, for a file structure made by \<open>makeini\<close> (neither it nor its
  default section is \<open>NULL\<close>): the return value and the file structure after the call.
\<close>

definition loadinifromfile ::
  "inifile \<Rightarrow> string option \<Rightarrow> (string \<Rightarrow> (string \<times> nat option) option) \<Rightarrow> int \<times> inifile" where
  "loadinifromfile inif filename fs =
     (case filename of
        None \<Rightarrow> (1, inif)
      | Some fn \<Rightarrow>
          (case fopen_r fs fn of
             None \<Rightarrow> (1, inif)
           | Some infile \<Rightarrow>
               (case parse_loop infile (inif, Some Default_section) of
                  ((inif', tmpsec), infile') \<Rightarrow> (0, inif'))))"

definition newinifromfile ::
  "string option \<Rightarrow> 32 word \<Rightarrow> (string \<Rightarrow> (string \<times> nat option) option) \<Rightarrow> inifile option" where
  "newinifromfile filename fl fs =
     (case filename of
        None \<Rightarrow> None
      | Some _ \<Rightarrow>
          (case loadinifromfile (makeini fl) filename fs of
             (rc, inif) \<Rightarrow> if 1 = rc then None else Some inif))"


section \<open>The orders of the specification\<close>

text \<open>
  A list of keys or names is strictly ascending when each is below its successor under
  \<open>strcmp\<close>; such a list has no duplicates.
\<close>

fun strictly_ascending :: "string list \<Rightarrow> bool" where
  "strictly_ascending [] = True"
| "strictly_ascending [x] = True"
| "strictly_ascending (x # y # zs) = (strcmp x y < 0 \<and> strictly_ascending (y # zs))"

section \<open>The output format of the specification\<close>

text \<open>
  The text the specification describes for a file structure: one line \<open>key=value\<close> per
  pair, where a pair without value gives \<open>key=\<close> if empty values are allowed and
  nothing otherwise; the pairs of the default section, a blank line, then every named
  section that has pairs as \<open>[name]\<close>, its pairs and a blank line. A named section
  without pairs gives nothing.
\<close>

definition spec_pair_line :: "32 word \<Rightarrow> inipair \<Rightarrow> string" where
  "spec_pair_line fl p =
     (case val p of
        Some v \<Rightarrow> key p @ ''='' @ v @ [newline]
      | None \<Rightarrow> if fl AND INIO_ALLOW_EMPTY \<noteq> 0 then key p @ ''='' @ [newline] else [])"

definition spec_section_text :: "32 word \<Rightarrow> inisection \<Rightarrow> string" where
  "spec_section_text fl s =
     (if pair_head s = [] then []
      else ''['' @ name s @ '']'' @ [newline]
           @ concat (map (spec_pair_line fl) (pair_head s)) @ [newline])"

definition spec_ini_text :: "inifile \<Rightarrow> string" where
  "spec_ini_text ini =
     concat (map (spec_pair_line (flags ini)) (default_section ini)) @ [newline]
     @ concat (map (spec_section_text (flags ini)) (sec_head ini))"

section \<open>File structures that survive writing and reading\<close>

text \<open>
  What a key, a section name and a value must satisfy so that the line written for them
  is read back as it was; \<open>fl\<close> are the flags of the file structure.

  A key is not empty, holds none of \<open>=\<close>, \<open>;\<close> and space, no newline and no NUL, begins
  neither with white space nor with \<open>[\<close>, and has at most 255 bytes.
\<close>

definition key_ok :: "string \<Rightarrow> bool" where
  "key_ok k \<longleftrightarrow>
     (case k of [] \<Rightarrow> False | c # _ \<Rightarrow> \<not> isspace c \<and> c \<noteq> CHR ''['') \<and>
     CHR ''='' \<notin> set k \<and> CHR '';'' \<notin> set k \<and> CHR '' '' \<notin> set k \<and>
     newline \<notin> set k \<and> CHR 0x00 \<notin> set k \<and> length k \<le> 255"

text \<open>
  A section name is not empty, holds none of \<open>=\<close>, \<open>;\<close>, space and \<open>]\<close>, no newline and
  no NUL, and has at most 255 bytes.
\<close>

definition name_ok :: "string \<Rightarrow> bool" where
  "name_ok n \<longleftrightarrow>
     n \<noteq> [] \<and> CHR ''='' \<notin> set n \<and> CHR '';'' \<notin> set n \<and> CHR '' '' \<notin> set n \<and>
     CHR '']'' \<notin> set n \<and> newline \<notin> set n \<and> CHR 0x00 \<notin> set n \<and> length n \<le> 255"

text \<open>
  A value is not empty, holds no newline and no NUL, and has at most 255 bytes; with
  \<open>INIO_SPACE_AROUND_DELIM\<close> it does not begin with white space, without it it holds
  no space.
\<close>

definition val_ok :: "32 word \<Rightarrow> string \<Rightarrow> bool" where
  "val_ok fl v \<longleftrightarrow>
     (case v of
        [] \<Rightarrow> False
      | c # _ \<Rightarrow> if fl AND INIO_SPACE_AROUND_DELIM \<noteq> 0 then \<not> isspace c
                 else CHR '' '' \<notin> set v) \<and>
     newline \<notin> set v \<and> CHR 0x00 \<notin> set v \<and> length v \<le> 255"

text \<open>
  A pair has a good key; its value is good, or it has no value and \<open>INIO_ALLOW_EMPTY\<close>
  is set.
\<close>

definition pair_ok :: "32 word \<Rightarrow> inipair \<Rightarrow> bool" where
  "pair_ok fl p \<longleftrightarrow>
     key_ok (key p) \<and>
     (case val p of
        None \<Rightarrow> fl AND INIO_ALLOW_EMPTY \<noteq> 0
      | Some v \<Rightarrow> val_ok fl v)"

text \<open>
  The pairs of a section are good and strictly ascending by key; the named sections
  have good names and are strictly ascending by name.
\<close>

definition pairs_ok :: "32 word \<Rightarrow> inipair list \<Rightarrow> bool" where
  "pairs_ok fl ps \<longleftrightarrow> list_all (pair_ok fl) ps \<and> strictly_ascending (map key ps)"

definition section_ok :: "32 word \<Rightarrow> inisection \<Rightarrow> bool" where
  "section_ok fl s \<longleftrightarrow> name_ok (name s) \<and> pairs_ok fl (pair_head s)"

definition representable :: "inifile \<Rightarrow> bool" where
  "representable ini \<longleftrightarrow>
     pairs_ok (flags ini) (default_section ini) \<and>
     list_all (section_ok (flags ini)) (sec_head ini) \<and>
     strictly_ascending (map name (sec_head ini))"

section \<open>Simple environments\<close>

text \<open>
  A file system in which every path can be opened for writing, and one in which every
  path opens for reading, holds the given text and never fails.
\<close>

definition all_writable :: "string \<Rightarrow> bool" where
  "all_writable path = True"

definition fs_holding :: "string \<Rightarrow> string \<Rightarrow> (string \<times> nat option) option" where
  "fs_holding content path = Some (content, None)"

text \<open>
  Writing a file structure and reading the text back with the same flags, in these
  environments: the traversal of the result.
\<close>

definition reread :: "inifile \<Rightarrow> (string option \<times> string \<times> string option) list option" where
  "reread ini =
     (case writeinitofile ini (Some ''f'') all_writable of
        (rc, None) \<Rightarrow> None
      | (rc, Some content) \<Rightarrow>
          map_option traversal
            (newinifromfile (Some ''f'') (flags ini) (fs_holding content)))"

section \<open>An input that fails while it is read\<close>


section \<open>Properties\<close>

subsection \<open>Comparison and lookup\<close>

lemma strcmp_eq_0: "strcmp a b = 0 \<longleftrightarrow> a = b"
  by (induction a b rule: strcmp.induct) auto

lemma strcmp_refl: "strcmp a a = 0"
  by (simp add: strcmp_eq_0)

lemma getpair_loop_Some:
  "getpair_loop ps k = Some i \<Longrightarrow> i < length ps \<and> key (ps ! i) = k"
proof (induction ps arbitrary: i)
  case Nil
  then show ?case by simp
next
  case (Cons p ps)
  show ?case
  proof (cases "strcmp k (key p) = 0")
    case True
    with Cons.prems show ?thesis by (simp add: strcmp_eq_0)
  next
    case False
    with Cons.prems obtain j where "getpair_loop ps k = Some j" and "i = Suc j"
      by auto
    with Cons.IH [of j] show ?thesis by simp
  qed
qed


lemma getpair_loop_first:
  "i < length ps \<Longrightarrow> key (ps ! i) = k \<Longrightarrow> \<forall>j<i. key (ps ! j) \<noteq> k \<Longrightarrow> getpair_loop ps k = Some i"
proof (induction ps arbitrary: i)
  case Nil
  then show ?case by simp
next
  case (Cons p ps)
  show ?case
  proof (cases i)
    case 0
    with Cons.prems show ?thesis by (simp add: strcmp_eq_0)
  next
    case (Suc j)
    with Cons.prems have "key p \<noteq> k" by auto
    moreover from Suc Cons.prems have "getpair_loop ps k = Some j"
      by (intro Cons.IH) auto
    ultimately show ?thesis using Suc by (auto simp: strcmp_eq_0)
  qed
qed

lemma getsection_loop_Some:
  "getsection_loop ss n = Some i \<Longrightarrow> i < length ss \<and> name (ss ! i) = n"
proof (induction ss arbitrary: i)
  case Nil
  then show ?case by simp
next
  case (Cons s ss)
  show ?case
  proof (cases "strcmp n (name s) = 0")
    case True
    with Cons.prems show ?thesis by (simp add: strcmp_eq_0)
  next
    case False
    with Cons.prems obtain j where "getsection_loop ss n = Some j" and "i = Suc j"
      by auto
    with Cons.IH [of j] show ?thesis by simp
  qed
qed



lemma getsection_loop_names:
  "map name ss = map name ss' \<Longrightarrow> getsection_loop ss n = getsection_loop ss' n"
proof (induction ss arbitrary: ss')
  case Nil
  then show ?case by simp
next
  case (Cons s ss)
  then obtain t ts where "ss' = t # ts" "name s = name t" "map name ss = map name ts"
    by (cases ss') auto
  with Cons.IH [of ts] show ?case by simp
qed

lemma sec_pairs_set_sec_pairs:
  "s = Default_section \<or> (\<exists>i. s = Named_section i \<and> i < length (sec_head ini)) \<Longrightarrow>
   sec_pairs (set_sec_pairs ini s ps) s = ps"
  by (cases s) auto

lemma names_set_sec_pairs: "map name (sec_head (set_sec_pairs ini s ps)) = map name (sec_head ini)"
proof (cases s)
  case Default_section
  then show ?thesis by simp
next
  case (Named_section i)
  then show ?thesis by (simp add: map_update list_update_same_conv)
qed


lemma ini_getsection_in_range:
  "ini_getsection ini nm = Some s \<Longrightarrow>
   s = Default_section \<or> (\<exists>i. s = Named_section i \<and> i < length (sec_head ini))"
  by (auto simp: ini_getsection_def split: option.splits dest: getsection_loop_Some)

lemma ini_getsection_set_sec_pairs:
  "ini_getsection (set_sec_pairs ini s ps) nm = ini_getsection ini nm"
  by (simp add: ini_getsection_def getsection_loop_names [OF names_set_sec_pairs] split: option.splits)


lemma getpair_loop_keys:
  "map key ps = map key ps' \<Longrightarrow> getpair_loop ps k = getpair_loop ps' k"
proof (induction ps arbitrary: ps')
  case Nil
  then show ?case by simp
next
  case (Cons p ps)
  then obtain q qs where "ps' = q # qs" "key p = key q" "map key ps = map key qs"
    by (cases ps') auto
  with Cons.IH [of qs] show ?case by simp
qed

lemma sec_pairs_set_sec_pairs_other:
  "s' \<noteq> s \<Longrightarrow> sec_pairs (set_sec_pairs ini s ps) s' = sec_pairs ini s'"
  by (cases s; cases s') auto

lemma flags_set_sec_pairs: "flags (set_sec_pairs ini s ps) = flags ini"
  by (cases s) auto

lemma length_set_sec_pairs: "length (sec_head (set_sec_pairs ini s ps)) = length (sec_head ini)"
  by (cases s) auto

lemma keys_setval: "map key (ps[i := (ps ! i)\<lparr>val := v\<rparr>]) = map key ps"
proof (cases "i < length ps")
  case True
  then have "(map key ps)[i := map key ps ! i] = map key ps"
    by (simp only: list_update_id)
  with True show ?thesis by (simp add: map_update)
next
  case False
  then have "length ps \<le> i" by arith
  then show ?thesis by (simp only: list_update_beyond)
qed

lemma ini_set_found:
  assumes "ini_getsection ini section = Some s"
    and "getpair_loop (sec_pairs ini s) k = Some i"
  shows "ini_set ini section (Some k) v =
           (if v = None then None else Some (s, i),
            set_sec_pairs ini s ((sec_pairs ini s)[i := (sec_pairs ini s ! i)\<lparr>val := v\<rparr>]))"
  using assms by (simp add: ini_set_def inisection_getpair_def pair_setval_def)

lemma ini_getpair_Some:
  "ini_getpair ini section (Some k) = Some r \<longleftrightarrow>
     (\<exists>s i. r = (s, i) \<and> ini_getsection ini section = Some s \<and>
            getpair_loop (sec_pairs ini s) k = Some i)"
  by (auto simp: ini_getpair_def inisection_getpair_def split: option.splits)

lemma ini_getpair_None:
  "ini_getpair ini section (Some k) = None \<longleftrightarrow>
     (ini_getsection ini section = None \<or>
      (\<exists>s. ini_getsection ini section = Some s \<and> getpair_loop (sec_pairs ini s) k = None))"
  by (auto simp: ini_getpair_def inisection_getpair_def split: option.splits)

lemma ini_set_not_found:
  "ini_getpair ini section (Some k) = None \<Longrightarrow> ini_set ini section (Some k) v = (None, ini)"
  by (auto simp: ini_getpair_None ini_set_def inisection_getpair_def)


lemma ini_set_effect:
  fixes v :: "string option"
  assumes s: "ini_getsection ini section = Some s"
    and i: "getpair_loop (sec_pairs ini s) k = Some i"
  defines "ini' \<equiv> snd (ini_set ini section (Some k) v)"
  shows "pair_at ini' (s, i) = Some \<lparr>key = k, val = v\<rparr>"
    and "r' \<noteq> (s, i) \<Longrightarrow> pair_at ini' r' = pair_at ini r'"
    and "map name (sec_head ini') = map name (sec_head ini)"
    and "map key (sec_pairs ini' t) = map key (sec_pairs ini t)"
    and "flags ini' = flags ini"
    and "ini_getpair ini' section (Some k) = Some (s, i)"
proof -
  from getpair_loop_Some [OF i] have lt: "i < length (sec_pairs ini s)"
    and k: "key (sec_pairs ini s ! i) = k" by auto
  note rng = ini_getsection_in_range [OF s]
  define ps where "ps = (sec_pairs ini s)[i := (sec_pairs ini s ! i)\<lparr>val := v\<rparr>]"
  have ini': "ini' = set_sec_pairs ini s ps"
    using ini_set_found [OF s i, of v] by (simp add: ini'_def ps_def)
  have sp: "sec_pairs ini' s = ps"
    unfolding ini' by (rule sec_pairs_set_sec_pairs [OF rng])
  have psi: "ps ! i = \<lparr>key = k, val = v\<rparr>" and len: "length ps = length (sec_pairs ini s)"
    using lt k by (simp_all add: ps_def)
  have keys: "map key ps = map key (sec_pairs ini s)"
    by (simp only: ps_def keys_setval)
  show "pair_at ini' (s, i) = Some \<lparr>key = k, val = v\<rparr>"
    using lt by (simp add: pair_at_def sp psi len)
  show "pair_at ini' r' = pair_at ini r'" if "r' \<noteq> (s, i)"
  proof (cases r')
    case (Pair s' j)
    show ?thesis
    proof (cases "s' = s")
      case True
      with that Pair have "j \<noteq> i" by simp
      then have "ps ! j = sec_pairs ini s ! j" by (simp add: ps_def)
      then show ?thesis by (simp add: pair_at_def Pair True sp len)
    next
      case False
      then show ?thesis by (simp add: pair_at_def Pair ini' sec_pairs_set_sec_pairs_other)
    qed
  qed
  show "map name (sec_head ini') = map name (sec_head ini)"
    by (simp only: ini' names_set_sec_pairs)
  show "map key (sec_pairs ini' t) = map key (sec_pairs ini t)"
  proof (cases "t = s")
    case True
    then show ?thesis by (simp add: sp keys)
  next
    case False
    then show ?thesis by (simp add: ini' sec_pairs_set_sec_pairs_other)
  qed
  show "flags ini' = flags ini"
    by (simp only: ini' flags_set_sec_pairs)
  have "getpair_loop ps k = Some i"
    using getpair_loop_keys [OF keys, of k] i by simp
  moreover have "ini_getsection ini' section = Some s"
    by (simp add: ini' ini_getsection_set_sec_pairs s)
  ultimately show "ini_getpair ini' section (Some k) = Some (s, i)"
    by (simp add: ini_getpair_Some sp)
qed

subsection \<open>ini_set\<close>

text \<open>
  C6. \<open>ini_set\<close> on a section or a key that does not exist (or with a \<open>NULL\<close> key)
  returns \<open>NULL\<close> and leaves the file structure as it was. When both exist, the pair
  found has the new value afterwards, every other pair is as before, and the section
  names, the keys of every section and the flags are unchanged: nothing is created.
\<close>

theorem ini_set_requires_existing:
  "ini_set ini section None v = (None, ini) \<and>
   (ini_getsection ini section = None \<longrightarrow> ini_set ini section (Some k) v = (None, ini)) \<and>
   (\<forall>s. ini_getsection ini section = Some s \<and>
        inisection_getpair (sec_pairs ini s) (Some k) = None \<longrightarrow>
        ini_set ini section (Some k) v = (None, ini)) \<and>
   (\<forall>r. ini_getpair ini section (Some k) = Some r \<longrightarrow>
        pair_at (snd (ini_set ini section (Some k) v)) r = Some \<lparr>key = k, val = v\<rparr> \<and>
        (\<forall>r'. r' \<noteq> r \<longrightarrow>
           pair_at (snd (ini_set ini section (Some k) v)) r' = pair_at ini r') \<and>
        map name (sec_head (snd (ini_set ini section (Some k) v))) = map name (sec_head ini) \<and>
        (\<forall>t. map key (sec_pairs (snd (ini_set ini section (Some k) v)) t)
               = map key (sec_pairs ini t)) \<and>
        flags (snd (ini_set ini section (Some k) v)) = flags ini)"
proof (intro conjI allI impI)
  show "ini_set ini section None v = (None, ini)"
    by (simp add: ini_set_def)
  show "ini_set ini section (Some k) v = (None, ini)" if "ini_getsection ini section = None"
    using that by (simp add: ini_set_def)
  show "ini_set ini section (Some k) v = (None, ini)"
    if "ini_getsection ini section = Some s \<and>
        inisection_getpair (sec_pairs ini s) (Some k) = None" for s
    using that by (simp add: ini_set_def)
next
  fix r assume "ini_getpair ini section (Some k) = Some r"
  then obtain s i where s: "ini_getsection ini section = Some s"
    and i: "getpair_loop (sec_pairs ini s) k = Some i" and r: "r = (s, i)"
    by (auto simp: ini_getpair_Some)
  note eff = ini_set_effect [OF s i]
  show "pair_at (snd (ini_set ini section (Some k) v)) r = Some \<lparr>key = k, val = v\<rparr>"
    unfolding r by (rule eff)
  show "pair_at (snd (ini_set ini section (Some k) v)) r' = pair_at ini r'" if "r' \<noteq> r" for r'
    using that unfolding r by (rule eff)
  show "map name (sec_head (snd (ini_set ini section (Some k) v))) = map name (sec_head ini)"
    by (rule eff)
  show "map key (sec_pairs (snd (ini_set ini section (Some k) v)) t) = map key (sec_pairs ini t)" for t
    by (rule eff)
  show "flags (snd (ini_set ini section (Some k) v)) = flags ini"
    by (rule eff)
qed

theorem ini_set_requires_existing_witness:
  "ini_getsection (makeini 0) (Some ''S'') = None \<and>
   ini_set (makeini 0) (Some ''S'') (Some ''k'') (Some ''w'') = (None, makeini 0) \<and>
   ini_getsection (makeini 0) None = Some Default_section \<and>
   inisection_getpair (sec_pairs (makeini 0) Default_section) (Some ''k'') = None \<and>
   ini_set (makeini 0) None (Some ''k'') (Some ''w'') = (None, makeini 0) \<and>
   ini_getpair \<lparr>sec_head = [\<lparr>name = ''S'', pair_head = [\<lparr>key = ''k'', val = Some ''v''\<rparr>]\<rparr>],
                 default_section = [], flags = 0\<rparr> (Some ''S'') (Some ''k'')
     = Some (Named_section 0, 0) \<and>
   pair_at (snd (ini_set \<lparr>sec_head = [\<lparr>name = ''S'', pair_head = [\<lparr>key = ''k'', val = Some ''v''\<rparr>]\<rparr>],
                 default_section = [], flags = 0\<rparr> (Some ''S'') (Some ''k'') (Some ''w'')))
       (Named_section 0, 0) = Some \<lparr>key = ''k'', val = Some ''w''\<rparr> \<and>
   (Named_section 0, 1) \<noteq> (Named_section 0, 0::nat) \<and>
   pair_at (snd (ini_set \<lparr>sec_head = [\<lparr>name = ''S'', pair_head = [\<lparr>key = ''k'', val = Some ''v''\<rparr>]\<rparr>],
                 default_section = [], flags = 0\<rparr> (Some ''S'') (Some ''k'') (Some ''w'')))
       (Named_section 0, 1) = None"
proof -
  have h1: "ini_getsection (makeini 0) (Some ''S'') = None"
    by (simp add: ini_getsection_def makeini_def)
  have h2: "ini_getsection (makeini 0) None = Some Default_section \<and>
            inisection_getpair (sec_pairs (makeini 0) Default_section) (Some ''k'') = None"
    by (simp add: ini_getsection_def makeini_def inisection_getpair_def)
  have h3: "ini_getpair \<lparr>sec_head = [\<lparr>name = ''S'', pair_head = [\<lparr>key = ''k'', val = Some ''v''\<rparr>]\<rparr>],
                 default_section = [], flags = 0\<rparr> (Some ''S'') (Some ''k'')
     = Some (Named_section 0, 0)"
    by (simp add: ini_getpair_def ini_getsection_def inisection_getpair_def)
  have h4: "(Named_section 0, 1) \<noteq> (Named_section 0, 0::nat)" by simp
  have h5: "pair_at \<lparr>sec_head = [\<lparr>name = ''S'', pair_head = [\<lparr>key = ''k'', val = Some ''v''\<rparr>]\<rparr>],
                 default_section = [], flags = 0\<rparr> (Named_section 0, 1) = None"
    by (simp add: pair_at_def)
  from ini_set_requires_existing [of "makeini 0" "Some ''S''" "Some ''w''" "''k''"] h1
  have a: "ini_set (makeini 0) (Some ''S'') (Some ''k'') (Some ''w'') = (None, makeini 0)"
    by blast
  from ini_set_requires_existing [of "makeini 0" None "Some ''w''" "''k''"] h2
  have b: "ini_set (makeini 0) None (Some ''k'') (Some ''w'') = (None, makeini 0)"
    by blast
  from ini_set_requires_existing
         [of "\<lparr>sec_head = [\<lparr>name = ''S'', pair_head = [\<lparr>key = ''k'', val = Some ''v''\<rparr>]\<rparr>],
                 default_section = [], flags = 0\<rparr>" "Some ''S''" "Some ''w''" "''k''"] h3 h4 h5
  have c: "pair_at (snd (ini_set \<lparr>sec_head = [\<lparr>name = ''S'', pair_head = [\<lparr>key = ''k'', val = Some ''v''\<rparr>]\<rparr>],
                 default_section = [], flags = 0\<rparr> (Some ''S'') (Some ''k'') (Some ''w'')))
       (Named_section 0, 0) = Some \<lparr>key = ''k'', val = Some ''w''\<rparr> \<and>
      pair_at (snd (ini_set \<lparr>sec_head = [\<lparr>name = ''S'', pair_head = [\<lparr>key = ''k'', val = Some ''v''\<rparr>]\<rparr>],
                 default_section = [], flags = 0\<rparr> (Some ''S'') (Some ''k'') (Some ''w'')))
       (Named_section 0, 1) = None"
    by metis
  from h1 h2 h3 h4 a b c show ?thesis by (intro conjI) simp_all
qed

text \<open>
  C10. When section and key exist, \<open>ini_set\<close> with a \<open>NULL\<close> value returns \<open>NULL\<close>,
  yet the pair, still found at the same place, has lost its value; so the file structure
  has changed whenever the pair had a value. The result is the one \<open>ini_set\<close> gives
  when the section or key is not found.
\<close>

theorem ini_set_null_value_clears_but_fails:
  assumes "ini_getpair ini section (Some k) = Some r"
  shows "fst (ini_set ini section (Some k) None) = None \<and>
         pair_at (snd (ini_set ini section (Some k) None)) r = Some \<lparr>key = k, val = None\<rparr> \<and>
         ini_getpair (snd (ini_set ini section (Some k) None)) section (Some k) = Some r \<and>
         (\<forall>p. pair_at ini r = Some p \<and> val p \<noteq> None \<longrightarrow>
                snd (ini_set ini section (Some k) None) \<noteq> ini) \<and>
         (\<forall>ini2 section2 k2 v2. ini_getpair ini2 section2 k2 = None \<longrightarrow>
                fst (ini_set ini2 section2 k2 v2) = fst (ini_set ini section (Some k) None))"
proof -
  from assms obtain s i where s: "ini_getsection ini section = Some s"
    and i: "getpair_loop (sec_pairs ini s) k = Some i" and r: "r = (s, i)"
    by (auto simp: ini_getpair_Some)
  note eff = ini_set_effect [OF s i, where v = None]
  have none: "fst (ini_set ini section (Some k) None) = None"
    by (simp add: ini_set_found [OF s i])
  have at: "pair_at (snd (ini_set ini section (Some k) None)) r = Some \<lparr>key = k, val = None\<rparr>"
    unfolding r by (rule eff)
  have same: "ini_getpair (snd (ini_set ini section (Some k) None)) section (Some k) = Some r"
    unfolding r by (rule eff)
  have changed: "\<forall>p. pair_at ini r = Some p \<and> val p \<noteq> None \<longrightarrow>
                   snd (ini_set ini section (Some k) None) \<noteq> ini"
  proof (intro allI impI notI)
    fix p
    assume "pair_at ini r = Some p \<and> val p \<noteq> None"
      and "snd (ini_set ini section (Some k) None) = ini"
    with at show False by auto
  qed
  have "fst (ini_set ini2 section2 k2 v2) = None"
    if "ini_getpair ini2 section2 k2 = None" for ini2 section2 k2 v2
  proof (cases k2)
    case None
    then show ?thesis by (simp add: ini_set_def)
  next
    case (Some k')
    with that show ?thesis by (simp add: ini_set_not_found)
  qed
  then have alike: "\<forall>ini2 section2 k2 v2. ini_getpair ini2 section2 k2 = None \<longrightarrow>
                fst (ini_set ini2 section2 k2 v2) = fst (ini_set ini section (Some k) None)"
    by (simp add: none)
  from none at same changed alike show ?thesis
    by (intro conjI)
qed


theorem ini_set_null_value_clears_but_fails_witness:
  "ini_getpair \<lparr>sec_head = [\<lparr>name = ''S'', pair_head = [\<lparr>key = ''k'', val = Some ''v''\<rparr>]\<rparr>],
                 default_section = [], flags = 0\<rparr> (Some ''S'') (Some ''k'')
     = Some (Named_section 0, 0) \<and>
   fst (ini_set \<lparr>sec_head = [\<lparr>name = ''S'', pair_head = [\<lparr>key = ''k'', val = Some ''v''\<rparr>]\<rparr>],
                 default_section = [], flags = 0\<rparr> (Some ''S'') (Some ''k'') None) = None \<and>
   pair_at (snd (ini_set \<lparr>sec_head = [\<lparr>name = ''S'', pair_head = [\<lparr>key = ''k'', val = Some ''v''\<rparr>]\<rparr>],
                 default_section = [], flags = 0\<rparr> (Some ''S'') (Some ''k'') None))
       (Named_section 0, 0) = Some \<lparr>key = ''k'', val = None\<rparr>"
proof -
  have h: "ini_getpair \<lparr>sec_head = [\<lparr>name = ''S'', pair_head = [\<lparr>key = ''k'', val = Some ''v''\<rparr>]\<rparr>],
                 default_section = [], flags = 0\<rparr> (Some ''S'') (Some ''k'')
     = Some (Named_section 0, 0)"
    by (simp add: ini_getpair_def ini_getsection_def inisection_getpair_def)
  from ini_set_null_value_clears_but_fails [OF h] h show ?thesis by simp
qed

subsection \<open>Sorted insertion: the last node\<close>

text \<open>
  C1. The claim is that after any sequence of \<open>pair_insert\<close> calls the pair list is
  strictly ascending by key, without duplicates. The loop of \<open>pair_insert\<close> runs while
  \<open>curr->next != NULL\<close>, so the last node is never compared with the new key: into the
  empty section, inserting key \<open>b\<close> and then key \<open>a\<close> gives the list \<open>b, a\<close>, which
  is not ascending.
\<close>

theorem pair_insert_last_node_not_compared:
  "pair_insert [] (makepair (Some ''b'') (Some ''1''))
     = (Some 0, [\<lparr>key = ''b'', val = Some ''1''\<rparr>]) \<and>
   pair_insert [\<lparr>key = ''b'', val = Some ''1''\<rparr>] (makepair (Some ''a'') (Some ''2''))
     = (Some 1, [\<lparr>key = ''b'', val = Some ''1''\<rparr>, \<lparr>key = ''a'', val = Some ''2''\<rparr>]) \<and>
   \<not> strictly_ascending
       (map key (snd (pair_insert [\<lparr>key = ''b'', val = Some ''1''\<rparr>]
                        (makepair (Some ''a'') (Some ''2'')))))"
  by (simp add: pair_insert_def makepair_def)

text \<open>
  C3. The claim is that \<open>pair_insert\<close> with a key that is already in the section
  replaces the old pair, and that a lookup then finds the new pair. When the old pair is
  the last node it is kept and the new pair is linked behind it; the lookup finds the
  old pair (position 0), not the one returned by the insertion (position 1).
\<close>

theorem pair_insert_duplicate_of_last_key:
  "pair_insert [\<lparr>key = ''k'', val = Some ''old''\<rparr>] (makepair (Some ''k'') (Some ''new''))
     = (Some 1, [\<lparr>key = ''k'', val = Some ''old''\<rparr>, \<lparr>key = ''k'', val = Some ''new''\<rparr>]) \<and>
   inisection_getpair
     (snd (pair_insert [\<lparr>key = ''k'', val = Some ''old''\<rparr>]
             (makepair (Some ''k'') (Some ''new'')))) (Some ''k'') = Some 0"
  by (simp add: pair_insert_def makepair_def inisection_getpair_def)

text \<open>
  C2. The claim is that the section list stays strictly ascending by name without
  duplicates, and that inserting a name that is present returns the resident section and
  leaves the list unchanged. The loop of \<open>section_insert\<close> has the same guard: a new
  section \<open>S\<close> inserted when \<open>S\<close> is the last node is linked behind it and returned
  (position 1), and \<open>a\<close> inserted after \<open>b\<close> gives the list \<open>b, a\<close>.
\<close>

theorem section_insert_last_node_not_compared:
  "section_insert \<lparr>sec_head = [\<lparr>name = ''S'', pair_head = [\<lparr>key = ''k'', val = Some ''v''\<rparr>]\<rparr>],
                    default_section = [], flags = 0\<rparr> (makesection (Some ''S''))
     = (Some (Named_section 1),
        \<lparr>sec_head = [\<lparr>name = ''S'', pair_head = [\<lparr>key = ''k'', val = Some ''v''\<rparr>]\<rparr>,
                     \<lparr>name = ''S'', pair_head = []\<rparr>],
         default_section = [], flags = 0\<rparr>) \<and>
   sec_head (snd (section_insert (snd (section_insert (makeini 0) (makesection (Some ''b''))))
                    (makesection (Some ''a''))))
     = [\<lparr>name = ''b'', pair_head = []\<rparr>, \<lparr>name = ''a'', pair_head = []\<rparr>] \<and>
   \<not> strictly_ascending
       (map name (sec_head (snd (section_insert
                                   (snd (section_insert (makeini 0) (makesection (Some ''b''))))
                                   (makesection (Some ''a''))))))"
  by (simp add: section_insert_def makesection_def makeini_def)


subsection \<open>ini_put\<close>





lemma section_insert_loop_in_range:
  "section_insert_loop ss sec = (i, l) \<Longrightarrow> i < length l \<and> name (l ! i) = name sec"
proof (induction ss sec arbitrary: i l rule: section_insert_loop.induct)
  case (1 sec)
  then show ?case by auto
next
  case (2 cur sec)
  then show ?case by auto
next
  case (3 cur nxt rest sec)
  show ?case
  proof (cases "strcmp (name sec) (name cur) \<le> 0")
    case True
    with "3.prems" show ?thesis by (auto simp: Let_def strcmp_eq_0 split: if_splits)
  next
    case False
    obtain j m where jm: "section_insert_loop (nxt # rest) sec = (j, m)"
      by (cases "section_insert_loop (nxt # rest) sec")
    with False "3.prems" have "i = Suc j" "l = cur # m"
      by (auto simp: Let_def split: if_splits)
    with "3.IH" [OF refl _ _ jm] False show ?thesis by auto
  qed
qed

lemma section_insert_in_range:
  "section_insert ini sec = (Some r, ini') \<Longrightarrow> valid_ref ini' r"
  by (auto simp: section_insert_def split: option.splits prod.splits
        dest: section_insert_loop_in_range)








subsection \<open>Writer\<close>

lemma write_pairs_append:
  "write_pairs fl ps outfile = outfile @ concat (map (spec_pair_line fl) ps)"
  by (induction ps arbitrary: outfile) (simp_all add: spec_pair_line_def split: option.splits)

lemma write_sections_append:
  "write_sections fl ss outfile = outfile @ concat (map (spec_section_text fl) ss)"
  by (induction ss arbitrary: outfile) (simp_all add: spec_section_text_def write_pairs_append)

text \<open>
  C8. \<open>writeinitofile\<close> returns 1 and writes nothing when the file name is \<open>NULL\<close> or
  the file cannot be opened; otherwise it returns 0 and the file holds the text of the
  specification: the pairs of the default section, one blank line, then each named
  section in list order, where a section without pairs gives no output and any other
  gives \<open>[name]\<close>, its pairs as \<open>key=value\<close> (a pair without value as \<open>key=\<close> if
  \<open>INIO_ALLOW_EMPTY\<close> is set, and not at all otherwise) and a blank line.
\<close>

theorem writeinitofile_format:
  "writeinitofile ini None writable = (1, None) \<and>
   writeinitofile ini (Some fn) writable
     = (if writable fn then (0, Some (spec_ini_text ini)) else (1, None))"
  by (simp add: writeinitofile_def spec_ini_text_def write_pairs_append write_sections_append)

subsection \<open>Return value of the parser\<close>



subsection \<open>Order of recognition\<close>

lemma rval_eq_1: "rval r = 1 \<longleftrightarrow> (\<exists>x. r = Assigned [x])"
  by (cases r) (auto simp: rval_def length_Suc_conv)

lemma rval_eq_2: "rval r = 2 \<longleftrightarrow> (\<exists>x y. r = Assigned [x, y])"
proof (cases r)
  case ScanEOF
  then show ?thesis by (simp add: rval_def)
next
  case (Assigned xs)
  have "length xs = 2 \<longleftrightarrow> (\<exists>x y. xs = [x, y])"
    by (cases xs; cases "tl xs") auto
  with Assigned show ?thesis by (simp add: rval_def)
qed

lemma parse_line_header:
  "sscanf tmpline fmt_section = Assigned [n] \<Longrightarrow>
   parse_line tmpline (inif, tmpsec)
     = (snd (section_insert inif (makesection (Some n))),
        fst (section_insert inif (makesection (Some n))))"
  by (simp add: parse_line_def split: prod.splits)

lemma parse_line_no_header:
  "rval (sscanf tmpline fmt_section) \<noteq> 1 \<Longrightarrow>
   parse_line tmpline (inif, tmpsec)
     = (case sscanf tmpline (keyvalfmt (flags inif)) of
                Assigned [tmpkey, tmpval] \<Rightarrow>
                  (snd (pair_insert_ref inif tmpsec (makepair (Some tmpkey) (Some tmpval))),
                   tmpsec)
              | _ \<Rightarrow>
                  if flags inif AND INIO_ALLOW_EMPTY \<noteq> 0
                  then (case sscanf tmpline fmt_key_only of
                          Assigned [tmpkey] \<Rightarrow>
                            (snd (pair_insert_ref inif tmpsec (makepair (Some tmpkey) None)),
                             tmpsec)
                        | _ \<Rightarrow> (inif, tmpsec))
                  else (inif, tmpsec))"
  by (auto simp: parse_line_def rval_eq_1 split: scan_result.splits list.splits)

lemma parse_line_keyval:
  "rval (sscanf tmpline fmt_section) \<noteq> 1 \<Longrightarrow>
   sscanf tmpline (keyvalfmt (flags inif)) = Assigned [k, v] \<Longrightarrow>
   parse_line tmpline (inif, tmpsec)
     = (snd (pair_insert_ref inif tmpsec (makepair (Some k) (Some v))), tmpsec)"
  by (simp add: parse_line_no_header)

lemma parse_line_no_keyval:
  "rval (sscanf tmpline fmt_section) \<noteq> 1 \<Longrightarrow>
   rval (sscanf tmpline (keyvalfmt (flags inif))) \<noteq> 2 \<Longrightarrow>
   parse_line tmpline (inif, tmpsec)
     = (if flags inif AND INIO_ALLOW_EMPTY \<noteq> 0
                  then (case sscanf tmpline fmt_key_only of
                          Assigned [tmpkey] \<Rightarrow>
                            (snd (pair_insert_ref inif tmpsec (makepair (Some tmpkey) None)),
                             tmpsec)
                        | _ \<Rightarrow> (inif, tmpsec))
                  else (inif, tmpsec))"
  by (auto simp: parse_line_no_header rval_eq_2 split: scan_result.splits list.splits)

lemma parse_line_key_only:
  "rval (sscanf tmpline fmt_section) \<noteq> 1 \<Longrightarrow>
   rval (sscanf tmpline (keyvalfmt (flags inif))) \<noteq> 2 \<Longrightarrow>
   flags inif AND INIO_ALLOW_EMPTY \<noteq> 0 \<Longrightarrow>
   sscanf tmpline fmt_key_only = Assigned [k] \<Longrightarrow>
   parse_line tmpline (inif, tmpsec)
     = (snd (pair_insert_ref inif tmpsec (makepair (Some k) None)), tmpsec)"
  by (simp add: parse_line_no_keyval)

lemma parse_line_ignored:
  "rval (sscanf tmpline fmt_section) \<noteq> 1 \<Longrightarrow>
   rval (sscanf tmpline (keyvalfmt (flags inif))) \<noteq> 2 \<Longrightarrow>
   flags inif AND INIO_ALLOW_EMPTY = 0 \<or> rval (sscanf tmpline fmt_key_only) \<noteq> 1 \<Longrightarrow>
   parse_line tmpline (inif, tmpsec) = (inif, tmpsec)"
  by (auto simp: parse_line_no_keyval rval_eq_1 split: scan_result.splits list.splits)

subsection \<open>Reading back what was written\<close>

lemma takeWhile_until:
  "\<forall>x\<in>set xs. P x \<Longrightarrow> \<not> P y \<Longrightarrow> takeWhile P (xs @ y # ys) = xs"
  by (induction xs) auto

lemma takeWhile_all: "\<forall>x\<in>set xs. P x \<Longrightarrow> takeWhile P xs = xs"
  by (induction xs) auto

lemma c_str_append: "CHR 0x00 \<notin> set xs \<Longrightarrow> c_str (xs @ ys) = xs @ c_str ys"
  by (induction xs) (auto simp: c_str_def)

lemma c_str_newline [simp]: "c_str [newline] = [newline]"
  by (simp add: c_str_def)

lemma key_ok_Cons: "key_ok k \<Longrightarrow> \<exists>c cs. k = c # cs \<and> \<not> isspace c \<and> c \<noteq> CHR ''[''"
  by (cases k) (auto simp: key_ok_def)

lemma scan_section_pair_line:
  assumes "key_ok k"
  shows "sscanf (k @ rest) fmt_section = Assigned []"
proof -
  from key_ok_Cons [OF assms] obtain c cs where k: "k = c # cs" "\<not> isspace c" "c \<noteq> CHR ''[''"
    by blast
  from assms have "CHR 0x00 \<notin> set k" by (simp add: key_ok_def)
  then have "c_str (k @ rest) = k @ c_str rest" by (rule c_str_append)
  with k show ?thesis by (simp add: sscanf_def fmt_section_def)
qed

lemma c_str_id: "CHR 0x00 \<notin> set s \<Longrightarrow> c_str s = s"
  unfolding c_str_def by (rule takeWhile_all) auto

lemma scanset_step:
  assumes "set m \<inter> set excl = {}" and "m \<noteq> []" and "length m \<le> w"
    and "case rest of [] \<Rightarrow> True | c # _ \<Rightarrow> c \<in> set excl"
  shows "sscanf_run (Scanset w excl # ds) (m @ rest) got = sscanf_run ds rest (got @ [m])"
proof -
  have "takeWhile (\<lambda>x. x \<notin> set excl) (m @ rest) = m"
  proof (cases rest)
    case Nil
    with assms(1) show ?thesis by (auto intro: takeWhile_all)
  next
    case (Cons c cs)
    with assms(1,4) show ?thesis by (auto intro!: takeWhile_until)
  qed
  with assms(2,3) show ?thesis by simp
qed

lemma scanset_fail:
  "case s of [] \<Rightarrow> False | c # _ \<Rightarrow> c \<in> set excl \<Longrightarrow>
   sscanf_run (Scanset w excl # ds) s got = Assigned got"
  by (cases s) auto

lemma ws_step:
  "case s of [] \<Rightarrow> True | c # _ \<Rightarrow> \<not> isspace c \<Longrightarrow>
   sscanf_run (WS # ds) s got = sscanf_run ds s got"
  by (cases s) auto

lemma lit_step: "sscanf_run (Lit c # ds) (c # s) got = sscanf_run ds s got"
  by simp

lemma ws_newline:
  "sscanf_run (WS # ds) [newline] got = sscanf_run ds [] got"
  "sscanf_run (WS # ds) [] got = sscanf_run ds [] got"
  by (simp_all add: isspace_def)

lemma scanset_nil: "sscanf_run (Scanset w excl # ds) [] got = input_failure got"
  by simp

lemma isspace_simps [simp]:
  "isspace newline" "isspace CHR '' ''" "\<not> isspace CHR ''=''" "\<not> isspace CHR ''[''"
  "\<not> isspace CHR '']''"
  by (simp_all add: isspace_def)

lemma scan_section_header:
  assumes "name_ok n"
  shows "sscanf (''['' @ n @ '']'' @ [newline]) fmt_section = Assigned [n]"
proof -
  from assms have nul: "CHR 0x00 \<notin> set n" and ne: "n \<noteq> []"
    and len: "length n \<le> 256" and br: "set n \<inter> set '']'' = {}"
    by (auto simp: name_ok_def)
  have "sscanf_run fmt_section (''['' @ n @ '']'' @ [newline]) [] = Assigned [n]"
    unfolding fmt_section_def
    by (simp add: ws_step scanset_step [OF br ne len] lit_step ws_newline del: sscanf_run.simps(2) sscanf_run.simps(3) sscanf_run.simps(4))
  then show ?thesis using nul by (simp add: sscanf_def c_str_id)
qed

lemma scan_blank:
  "sscanf [newline] fmt_section = ScanEOF"
  "sscanf [newline] fmt_spaces = ScanEOF"
  "sscanf [newline] fmt_no_spaces = ScanEOF"
  "sscanf [newline] fmt_key_only = ScanEOF"
  by (simp_all add: sscanf_def fmt_section_def fmt_spaces_def fmt_no_spaces_def fmt_key_only_def
        input_failure_def c_str_def)


lemma ws_step_app:
  "case m of [] \<Rightarrow> False | c # _ \<Rightarrow> \<not> isspace c \<Longrightarrow>
   sscanf_run (WS # ds) (m @ rest) got = sscanf_run ds (m @ rest) got"
  by (cases m) auto

lemma key_ok_facts:
  assumes "key_ok k"
  shows "case k of [] \<Rightarrow> False | c # _ \<Rightarrow> \<not> isspace c"
    and "set k \<inter> set ''=; '' = {}" and "k \<noteq> []" and "length k \<le> 256"
    and "CHR 0x00 \<notin> set k" and "newline \<notin> set k"
  using assms by (auto simp: key_ok_def split: list.splits)

lemma val_ok_facts:
  assumes "val_ok fl v"
  shows "v \<noteq> []" and "length v \<le> 256" and "CHR 0x00 \<notin> set v" and "newline \<notin> set v"
    and "set v \<inter> set [newline] = {}"
    and "fl AND INIO_SPACE_AROUND_DELIM \<noteq> 0 \<Longrightarrow> case v of [] \<Rightarrow> False | c # _ \<Rightarrow> \<not> isspace c"
    and "fl AND INIO_SPACE_AROUND_DELIM = 0 \<Longrightarrow> set v \<inter> set [CHR '' '', newline] = {}"
  using assms by (auto simp: val_ok_def split: list.splits)

lemma scan_keyval:
  assumes k: "key_ok k" and v: "val_ok fl v" and t: "t = [] \<or> t = [newline]"
  shows "sscanf (k @ ''='' @ v @ t) (keyvalfmt fl) = Assigned [k, v]"
proof -
  note kf = key_ok_facts [OF k] and vf = val_ok_facts [OF v]
  note del = sscanf_run.simps(2) sscanf_run.simps(3) sscanf_run.simps(4)
  have tl: "case t of [] \<Rightarrow> True | c # _ \<Rightarrow> c \<in> set [newline]"
    and tl': "case t of [] \<Rightarrow> True | c # _ \<Rightarrow> c \<in> set [CHR '' '', newline]"
    and ws: "sscanf_run (WS # ds) t got = sscanf_run ds [] got" for ds got
    using t by (auto simp: ws_newline)
  have run: "sscanf_run (keyvalfmt fl) (k @ ''='' @ v @ t) [] = Assigned [k, v]"
  proof (cases "fl AND INIO_SPACE_AROUND_DELIM = 0")
    case True
    then show ?thesis
      unfolding keyvalfmt_def fmt_no_spaces_def
      by (simp add: ws_step_app [OF kf(1)] scanset_step [OF kf(2,3,4)]
            scanset_step [OF vf(7) vf(1,2) tl'] lit_step ws del: del)
  next
    case False
    then show ?thesis
      unfolding keyvalfmt_def fmt_spaces_def
      by (simp add: ws_step_app [OF kf(1)] ws_step ws_step_app [OF vf(6)]
            scanset_step [OF kf(2,3,4)] scanset_step [OF vf(5) vf(1,2) tl]
            lit_step ws del: del)
  qed
  have "CHR 0x00 \<notin> set (k @ ''='' @ v @ t)"
    using kf(5) vf(3) t by auto
  from c_str_id [OF this] run show ?thesis by (simp add: sscanf_def)
qed

lemma scan_keyval_empty:
  assumes k: "key_ok k"
  shows "sscanf (k @ ''='' @ [newline]) (keyvalfmt fl) = Assigned [k]"
proof -
  note kf = key_ok_facts [OF k]
  have run: "sscanf_run (keyvalfmt fl) (k @ ''='' @ [newline]) [] = Assigned [k]"
  proof (cases "fl AND INIO_SPACE_AROUND_DELIM = 0")
    case True
    then show ?thesis
      unfolding keyvalfmt_def fmt_no_spaces_def
      by (simp add: ws_step_app [OF kf(1)] scanset_step [OF kf(2,3,4)] scanset_fail
            lit_step ws_newline del: sscanf_run.simps(2) sscanf_run.simps(3) sscanf_run.simps(4))
  next
    case False
    then show ?thesis
      unfolding keyvalfmt_def fmt_spaces_def
      by (simp add: ws_step_app [OF kf(1)] ws_step scanset_step [OF kf(2,3,4)]
            input_failure_def lit_step ws_newline scanset_nil del: sscanf_run.simps(2) sscanf_run.simps(3) sscanf_run.simps(4))
  qed
  have "CHR 0x00 \<notin> set (k @ ''='' @ [newline])"
    using kf(5) by simp
  from c_str_id [OF this] run show ?thesis by (simp add: sscanf_def)
qed

lemma scan_key_only_empty:
  assumes k: "key_ok k"
  shows "sscanf (k @ ''='' @ [newline]) fmt_key_only = Assigned [k]"
proof -
  note kf = key_ok_facts [OF k]
  have run: "sscanf_run fmt_key_only (k @ ''='' @ [newline]) [] = Assigned [k]"
    unfolding fmt_key_only_def
    by (simp add: ws_step_app [OF kf(1)] ws_step scanset_step [OF kf(2,3,4)]
          lit_step ws_newline del: sscanf_run.simps(2) sscanf_run.simps(3) sscanf_run.simps(4))
  have "CHR 0x00 \<notin> set (k @ ''='' @ [newline])"
    using kf(5) by simp
  from c_str_id [OF this] run show ?thesis by (simp add: sscanf_def)
qed


lemma parse_line_blank: "parse_line [newline] st = st"
  by (cases st) (simp add: parse_line_def scan_blank keyvalfmt_def)

lemma parse_line_header_line:
  "name_ok n \<Longrightarrow>
   parse_line (''['' @ n @ '']'' @ [newline]) (inif, tmpsec)
     = (snd (section_insert inif (makesection (Some n))),
        fst (section_insert inif (makesection (Some n))))"
  by (rule parse_line_header) (rule scan_section_header)

lemma parse_line_pair_line:
  assumes "pair_ok (flags inif) p"
  shows "parse_line (spec_pair_line (flags inif) p) (inif, tmpsec)
           = (snd (pair_insert_ref inif tmpsec (Some p)), tmpsec)"
proof -
  from assms have k: "key_ok (key p)" by (simp add: pair_ok_def)
  have hdr: "rval (sscanf (key p @ rest) fmt_section) \<noteq> 1" for rest
    by (simp add: scan_section_pair_line [OF k] rval_def)
  show ?thesis
  proof (cases "val p")
    case None
    with assms have ae: "flags inif AND INIO_ALLOW_EMPTY \<noteq> 0" by (simp add: pair_ok_def)
    have line: "spec_pair_line (flags inif) p = key p @ ''='' @ [newline]"
      using None ae by (simp add: spec_pair_line_def)
    have p: "makepair (Some (key p)) None = Some p"
      using None by (simp add: makepair_def)
    have "rval (sscanf (key p @ ''='' @ [newline]) (keyvalfmt (flags inif))) \<noteq> 2"
      using scan_keyval_empty [OF k, of "flags inif"] by (simp add: rval_def)
    from parse_line_key_only [OF hdr this ae scan_key_only_empty [OF k]]
    show ?thesis by (simp only: line p)
  next
    case (Some v)
    with assms have v: "val_ok (flags inif) v" by (simp add: pair_ok_def)
    have line: "spec_pair_line (flags inif) p = key p @ ''='' @ v @ [newline]"
      using Some by (simp add: spec_pair_line_def)
    have p: "makepair (Some (key p)) (Some v) = Some p"
      using Some by (simp add: makepair_def)
    have "sscanf (key p @ ''='' @ v @ [newline]) (keyvalfmt (flags inif)) = Assigned [key p, v]"
      by (rule scan_keyval [OF k v]) simp
    from parse_line_keyval [OF hdr this]
    show ?thesis by (simp only: line p)
  qed
qed

lemma parse_line_pair_body:
  assumes "pair_ok (flags inif) p" and "val p = Some v"
  shows "parse_line (key p @ ''='' @ v) (inif, tmpsec)
           = (snd (pair_insert_ref inif tmpsec (Some p)), tmpsec)"
proof -
  from assms have k: "key_ok (key p)" and v: "val_ok (flags inif) v"
    by (simp_all add: pair_ok_def)
  have hdr: "rval (sscanf (key p @ rest) fmt_section) \<noteq> 1" for rest
    by (simp add: scan_section_pair_line [OF k] rval_def)
  have p: "makepair (Some (key p)) (Some v) = Some p"
    using assms(2) by (simp add: makepair_def)
  have "sscanf (key p @ ''='' @ v @ []) (keyvalfmt (flags inif)) = Assigned [key p, v]"
    by (rule scan_keyval [OF k v]) simp
  then have "sscanf (key p @ ''='' @ v) (keyvalfmt (flags inif)) = Assigned [key p, v]"
    by simp
  from parse_line_keyval [OF hdr this]
  show ?thesis by (simp only: p)
qed

lemma read_line_until:
  "newline \<notin> set l \<Longrightarrow> length l < m \<Longrightarrow> read_line m (l @ newline # rest) = l @ [newline]"
proof (induction l arbitrary: m)
  case Nil
  then show ?case by (cases m) auto
next
  case (Cons c l)
  then show ?case by (cases m) auto
qed

lemma fgets_line:
  assumes "newline \<notin> set l" and "length l \<le> 510"
  shows "fgets 512 \<lparr>unread = l @ newline # rest, fail_after = None,
                    eof_ind = False, err_ind = False\<rparr>
           = (Some (l @ [newline]),
              \<lparr>unread = rest, fail_after = None, eof_ind = False, err_ind = False\<rparr>)"
proof -
  from assms have "read_line 511 (l @ newline # rest) = l @ [newline]"
    by (intro read_line_until) auto
  then show ?thesis by (simp add: fgets_def)
qed

lemma read_line_Nil: "read_line m [] = []"
  by (cases m) auto

lemma fgets_end:
  "fgets 512 \<lparr>unread = [], fail_after = None, eof_ind = False, err_ind = False\<rparr>
     = (None, \<lparr>unread = [], fail_after = None, eof_ind = True, err_ind = False\<rparr>)"
  by (simp add: fgets_def read_line_Nil)

lemma parse_loop_line:
  assumes "newline \<notin> set l" and "length l \<le> 510"
  shows "parse_loop \<lparr>unread = l @ newline # rest, fail_after = None,
                      eof_ind = False, err_ind = False\<rparr> st
           = parse_loop \<lparr>unread = rest, fail_after = None, eof_ind = False, err_ind = False\<rparr>
               (parse_line (l @ [newline]) st)"
  by (subst parse_loop.simps) (simp add: fgets_line [OF assms])

lemma read_line_full:
  "newline \<notin> set l \<Longrightarrow> length l = m \<Longrightarrow> read_line m (l @ rest) = l"
proof (induction l arbitrary: m)
  case Nil
  then show ?case by simp
next
  case (Cons c l)
  then show ?case by (cases m) auto
qed

lemma fgets_full:
  assumes "newline \<notin> set l" and "length l = 511"
  shows "fgets 512 \<lparr>unread = l @ rest, fail_after = None, eof_ind = False, err_ind = False\<rparr>
           = (Some l, \<lparr>unread = rest, fail_after = None, eof_ind = False, err_ind = False\<rparr>)"
proof -
  from assms have "read_line 511 (l @ rest) = l"
    by (intro read_line_full) auto
  with assms(2) show ?thesis by (simp add: fgets_def)
qed

lemma parse_loop_line_full:
  assumes "newline \<notin> set l" and "length l = 511"
  shows "parse_loop \<lparr>unread = l @ newline # rest, fail_after = None,
                      eof_ind = False, err_ind = False\<rparr> st
           = parse_loop \<lparr>unread = rest, fail_after = None, eof_ind = False, err_ind = False\<rparr>
               (parse_line l st)"
proof -
  have "parse_loop \<lparr>unread = l @ newline # rest, fail_after = None,
                      eof_ind = False, err_ind = False\<rparr> st
          = parse_loop \<lparr>unread = newline # rest, fail_after = None,
                      eof_ind = False, err_ind = False\<rparr> (parse_line l st)"
    by (subst parse_loop.simps) (simp add: fgets_full [OF assms])
  also have "\<dots> = parse_loop \<lparr>unread = rest, fail_after = None, eof_ind = False,
                               err_ind = False\<rparr> (parse_line l st)"
    using parse_loop_line [of "[]" rest "parse_line l st"] by (simp add: parse_line_blank)
  finally show ?thesis .
qed

lemma parse_loop_end:
  "parse_loop \<lparr>unread = [], fail_after = None, eof_ind = False, err_ind = False\<rparr> st
     = (st, \<lparr>unread = [], fail_after = None, eof_ind = True, err_ind = False\<rparr>)"
  by (subst parse_loop.simps, simp add: fgets_end, subst parse_loop.simps, simp)


lemma strcmp_less_greater: "strcmp a b < 0 \<longleftrightarrow> strcmp b a > 0"
  by (induction a b rule: strcmp.induct) auto

lemma strcmp_trans: "strcmp a b < 0 \<Longrightarrow> strcmp b c < 0 \<Longrightarrow> strcmp a c < 0"
proof (induction a b arbitrary: c rule: strcmp.induct)
  case 1
  then show ?case by simp
next
  case (2 b bs)
  then show ?case by (cases c) (auto split: if_splits)
next
  case (3 a as)
  then show ?case by simp
next
  case (4 a as b bs)
  then show ?case by (cases c) (auto split: if_splits)
qed

lemma strictly_ascending_tail: "strictly_ascending (x # xs) \<Longrightarrow> strictly_ascending xs"
  by (cases xs) auto

lemma strictly_ascending_all:
  "strictly_ascending (x # xs) \<Longrightarrow> y \<in> set xs \<Longrightarrow> strcmp x y < 0"
proof (induction xs arbitrary: x)
  case Nil
  then show ?case by simp
next
  case (Cons z zs)
  show ?case
  proof (cases "y = z")
    case True
    with Cons.prems show ?thesis by simp
  next
    case False
    with Cons.prems have "y \<in> set zs" and "strcmp x z < 0" and "strictly_ascending (z # zs)"
      by auto
    with Cons.IH [of z] show ?thesis by (auto intro: strcmp_trans)
  qed
qed

lemma strictly_ascending_append_left:
  "strictly_ascending (xs @ ys) \<Longrightarrow> strictly_ascending xs"
proof (induction xs rule: strictly_ascending.induct)
  case 1
  then show ?case by simp
next
  case (2 x)
  then show ?case by simp
next
  case (3 x y zs)
  then show ?case by simp
qed

lemma pair_insert_loop_append:
  "strictly_ascending (map key (ps @ [p])) \<Longrightarrow> pair_insert_loop ps p = (length ps, ps @ [p])"
proof (induction ps p rule: pair_insert_loop.induct)
  case (1 pair)
  then show ?case by simp
next
  case (2 cur pair)
  then show ?case by simp
next
  case (3 cur nxt rest pair)
  from "3.prems" have "strcmp (key cur) (key pair) < 0"
    by (intro strictly_ascending_all [of "key cur" "map key (nxt # rest @ [pair])"]) auto
  then have gt: "strcmp (key pair) (key cur) > 0"
    by (simp add: strcmp_less_greater)
  from "3.prems" have "strictly_ascending (map key ((nxt # rest) @ [pair]))"
    by simp
  with "3.IH" [OF refl] gt show ?case by simp
qed

lemma section_insert_loop_append:
  "strictly_ascending (map name (ss @ [s])) \<Longrightarrow>
   section_insert_loop ss s = (length ss, ss @ [s])"
proof (induction ss s rule: section_insert_loop.induct)
  case (1 sec)
  then show ?case by simp
next
  case (2 cur sec)
  then show ?case by simp
next
  case (3 cur nxt rest sec)
  from "3.prems" have "strcmp (name cur) (name sec) < 0"
    by (intro strictly_ascending_all [of "name cur" "map name (nxt # rest @ [sec])"]) auto
  then have gt: "strcmp (name sec) (name cur) > 0"
    by (simp add: strcmp_less_greater)
  from "3.prems" have "strictly_ascending (map name ((nxt # rest) @ [sec]))"
    by simp
  with "3.IH" [OF refl] gt show ?case by simp
qed


lemma set_sec_pairs_same: "set_sec_pairs ini r (sec_pairs ini r) = ini"
proof (cases r)
  case Default_section
  then show ?thesis by simp
next
  case (Named_section i)
  have "(sec_head ini)[i := (sec_head ini ! i)\<lparr>pair_head := pair_head (sec_head ini ! i)\<rparr>]
          = sec_head ini"
    by (simp add: list_update_same_conv)
  with Named_section show ?thesis by simp
qed

lemma set_sec_pairs_twice:
  "set_sec_pairs (set_sec_pairs ini r ps) r qs = set_sec_pairs ini r qs"
  by (cases r) auto

lemma valid_ref_set_sec_pairs: "valid_ref (set_sec_pairs ini r ps) r' = valid_ref ini r'"
  by (cases r'; cases r) auto

lemma sec_pairs_set_sec_pairs_valid:
  "valid_ref ini r \<Longrightarrow> sec_pairs (set_sec_pairs ini r ps) r = ps"
  by (cases r) auto

lemma parse_loop_pair_line:
  assumes ok: "pair_ok (flags inif) p"
  shows "parse_loop \<lparr>unread = spec_pair_line (flags inif) p @ rest, fail_after = None,
                      eof_ind = False, err_ind = False\<rparr> (inif, tmpsec)
           = parse_loop \<lparr>unread = rest, fail_after = None, eof_ind = False, err_ind = False\<rparr>
               (snd (pair_insert_ref inif tmpsec (Some p)), tmpsec)"
proof -
  from ok have k: "newline \<notin> set (key p)" "length (key p) \<le> 255"
    by (simp_all add: pair_ok_def key_ok_def)
  show ?thesis
  proof (cases "val p")
    case None
    with ok have line: "spec_pair_line (flags inif) p = (key p @ ''='') @ [newline]"
      by (simp add: pair_ok_def spec_pair_line_def)
    have "newline \<notin> set (key p @ ''='')" and "length (key p @ ''='') \<le> 510"
      using k by simp_all
    from parse_loop_line [OF this, of rest "(inif, tmpsec)"]
    show ?thesis
      using parse_line_pair_line [OF ok, of tmpsec] by (simp add: line)
  next
    case (Some v)
    with ok have v: "newline \<notin> set v" "length v \<le> 255"
      by (simp_all add: pair_ok_def val_ok_def)
    let ?l = "key p @ ''='' @ v"
    have line: "spec_pair_line (flags inif) p = ?l @ [newline]"
      using Some by (simp add: spec_pair_line_def)
    have nl: "newline \<notin> set ?l" and len: "length ?l \<le> 511"
      using k v by simp_all
    show ?thesis
    proof (cases "length ?l = 511")
      case True
      from parse_loop_line_full [OF nl True, of rest "(inif, tmpsec)"]
      show ?thesis
        using parse_line_pair_body [OF ok Some, of tmpsec] by (simp add: line)
    next
      case False
      with len have "length ?l \<le> 510" by simp
      from parse_loop_line [OF nl this, of rest "(inif, tmpsec)"]
      show ?thesis
        using parse_line_pair_line [OF ok, of tmpsec] by (simp add: line)
    qed
  qed
qed

lemma pair_insert_ref_append:
  assumes "strictly_ascending (map key (sec_pairs ini0 r @ [p]))"
  shows "snd (pair_insert_ref ini0 (Some r) (Some p))
           = set_sec_pairs ini0 r (sec_pairs ini0 r @ [p])"
  by (simp add: pair_insert_ref_def pair_insert_def pair_insert_loop_append [OF assms])

lemma parse_pairs:
  assumes "list_all (pair_ok fl) ps"
    and "strictly_ascending (map key (sec_pairs ini0 r @ ps))"
    and "flags ini0 = fl" and "valid_ref ini0 r"
  shows "parse_loop \<lparr>unread = concat (map (spec_pair_line fl) ps) @ rest, fail_after = None,
                      eof_ind = False, err_ind = False\<rparr> (ini0, Some r)
           = parse_loop \<lparr>unread = rest, fail_after = None, eof_ind = False, err_ind = False\<rparr>
               (set_sec_pairs ini0 r (sec_pairs ini0 r @ ps), Some r)"
  using assms
proof (induction ps arbitrary: ini0)
  case Nil
  then show ?case by (simp add: set_sec_pairs_same)
next
  case (Cons p ps)
  from Cons.prems have ok: "pair_ok (flags ini0) p" and oks: "list_all (pair_ok fl) ps"
    by simp_all
  define ini1 where "ini1 = set_sec_pairs ini0 r (sec_pairs ini0 r @ [p])"
  have asc1: "strictly_ascending (map key (sec_pairs ini0 r @ [p]))"
    using Cons.prems(2)
      strictly_ascending_append_left [of "map key (sec_pairs ini0 r @ [p])" "map key ps"]
    by simp
  have sp1: "sec_pairs ini1 r = sec_pairs ini0 r @ [p]"
    unfolding ini1_def by (rule sec_pairs_set_sec_pairs_valid [OF Cons.prems(4)])
  have "parse_loop \<lparr>unread = concat (map (spec_pair_line fl) (p # ps)) @ rest,
                     fail_after = None, eof_ind = False, err_ind = False\<rparr> (ini0, Some r)
        = parse_loop \<lparr>unread = concat (map (spec_pair_line fl) ps) @ rest,
                     fail_after = None, eof_ind = False, err_ind = False\<rparr> (ini1, Some r)"
    using parse_loop_pair_line [OF ok, of "concat (map (spec_pair_line fl) ps) @ rest" "Some r"]
      Cons.prems(3)
    by (simp add: pair_insert_ref_append [OF asc1] ini1_def)
  also have "\<dots> = parse_loop \<lparr>unread = rest, fail_after = None, eof_ind = False,
                               err_ind = False\<rparr>
                      (set_sec_pairs ini1 r (sec_pairs ini1 r @ ps), Some r)"
  proof (rule Cons.IH [OF oks])
    show "strictly_ascending (map key (sec_pairs ini1 r @ ps))"
      using Cons.prems(2) by (simp add: sp1)
    show "flags ini1 = fl"
      using Cons.prems(3) by (simp add: ini1_def flags_set_sec_pairs)
    show "valid_ref ini1 r"
      using Cons.prems(4) by (simp add: ini1_def valid_ref_set_sec_pairs)
  qed
  also have "set_sec_pairs ini1 r (sec_pairs ini1 r @ ps)
               = set_sec_pairs ini0 r (sec_pairs ini0 r @ p # ps)"
    by (simp add: sp1) (simp add: ini1_def set_sec_pairs_twice)
  finally show ?case .
qed

lemma strictly_ascending_sorted_wrt:
  "strictly_ascending xs \<longleftrightarrow> sorted_wrt (\<lambda>a b. strcmp a b < 0) xs"
proof (induction xs rule: strictly_ascending.induct)
  case 1
  then show ?case by simp
next
  case (2 x)
  then show ?case by simp
next
  case (3 x y zs)
  then show ?case by (auto intro: strcmp_trans)
qed

lemma section_shape:
  assumes "name_ok n"
  shows "newline \<notin> set (''['' @ n @ '']'')" and "length (''['' @ n @ '']'') \<le> 510"
  using assms by (auto simp: name_ok_def)

lemma parse_line_section_append:
  assumes ok: "name_ok n"
    and asc: "strictly_ascending (map name (sec_head ini0 @ [\<lparr>name = n, pair_head = []\<rparr>]))"
  shows "parse_line ((''['' @ n @ '']'') @ [newline]) (ini0, tmpsec)
           = (ini0\<lparr>sec_head := sec_head ini0 @ [\<lparr>name = n, pair_head = []\<rparr>]\<rparr>,
              Some (Named_section (length (sec_head ini0))))"
  using parse_line_header_line [OF ok, of ini0 tmpsec] section_insert_loop_append [OF asc]
  by (simp add: section_insert_def makesection_def)

lemma parse_sections:
  assumes "list_all (section_ok fl) ss"
    and "strictly_ascending (map name (sec_head ini0 @ ss))"
    and "flags ini0 = fl"
  shows "fst (fst (parse_loop \<lparr>unread = concat (map (spec_section_text fl) ss),
                               fail_after = None, eof_ind = False, err_ind = False\<rparr>
                     (ini0, tmpsec)))
           = ini0\<lparr>sec_head := sec_head ini0 @ filter (\<lambda>s. pair_head s \<noteq> []) ss\<rparr>"
  using assms
proof (induction ss arbitrary: ini0 tmpsec)
  case Nil
  then show ?case by (simp add: parse_loop_end)
next
  case (Cons s ss)
  from Cons.prems have oks: "list_all (section_ok fl) ss" and ok: "section_ok fl s"
    by simp_all
  show ?case
  proof (cases "pair_head s = []")
    case True
    from Cons.prems(2) have "strictly_ascending (map name (sec_head ini0 @ ss))"
      by (simp add: strictly_ascending_sorted_wrt sorted_wrt_append)
    from Cons.IH [OF oks this Cons.prems(3), of tmpsec] True show ?thesis
      by (simp add: spec_section_text_def)
  next
    case False
    let ?hd = "''['' @ name s @ '']''"
    let ?body = "concat (map (spec_pair_line fl) (pair_head s))"
    let ?tail = "concat (map (spec_section_text fl) ss)"
    define ini1 where "ini1 = ini0\<lparr>sec_head := sec_head ini0 @ [\<lparr>name = name s, pair_head = []\<rparr>]\<rparr>"
    define r where "r = Named_section (length (sec_head ini0))"
    define ini2 where "ini2 = set_sec_pairs ini1 r (pair_head s)"
    from ok have nm: "name_ok (name s)" and pk: "list_all (pair_ok fl) (pair_head s)"
      and pasc: "strictly_ascending (map key (pair_head s))"
      by (simp_all add: section_ok_def pairs_ok_def)
    have asc1: "strictly_ascending (map name (sec_head ini0 @ [\<lparr>name = name s, pair_head = []\<rparr>]))"
      using Cons.prems(2) by (simp add: strictly_ascending_sorted_wrt sorted_wrt_append)
    have wr: "concat (map (spec_section_text fl) (s # ss))
                  = ?hd @ newline # (?body @ newline # ?tail)"
      using False by (simp add: spec_section_text_def)
    have sp1: "sec_pairs ini1 r = []" and v1: "valid_ref ini1 r" and f1: "flags ini1 = fl"
      using Cons.prems(3) by (simp_all add: ini1_def r_def nth_append)
    have s2: "sec_head ini2 = sec_head ini0 @ [s]" and f2: "flags ini2 = fl"
      using Cons.prems(3) by (simp_all add: ini2_def ini1_def r_def nth_append)
    have ini2: "ini2\<lparr>sec_head := sec_head ini2 @ filter (\<lambda>s. pair_head s \<noteq> []) ss\<rparr>
                 = ini0\<lparr>sec_head := sec_head ini0 @ filter (\<lambda>s. pair_head s \<noteq> []) (s # ss)\<rparr>"
      using False by (simp add: ini2_def ini1_def r_def nth_append)
    have "parse_loop \<lparr>unread = concat (map (spec_section_text fl) (s # ss)),
                       fail_after = None, eof_ind = False, err_ind = False\<rparr> (ini0, tmpsec)
          = parse_loop \<lparr>unread = ?body @ newline # ?tail,
                       fail_after = None, eof_ind = False, err_ind = False\<rparr> (ini1, Some r)"
      unfolding wr
      by (simp only: parse_loop_line [OF section_shape [OF nm]]
            parse_line_section_append [OF nm asc1] ini1_def r_def)
    also have "\<dots> = parse_loop \<lparr>unread = newline # ?tail,
                       fail_after = None, eof_ind = False, err_ind = False\<rparr> (ini2, Some r)"
      using parse_pairs [OF pk _ f1 v1, of "newline # ?tail"] pasc
      by (simp add: sp1 ini2_def)
    also have "\<dots> = parse_loop \<lparr>unread = ?tail,
                       fail_after = None, eof_ind = False, err_ind = False\<rparr> (ini2, Some r)"
      using parse_loop_line [of "[]" ?tail "(ini2, Some r)"] by (simp add: parse_line_blank)
    finally have "fst (fst (parse_loop \<lparr>unread = concat (map (spec_section_text fl) (s # ss)),
                       fail_after = None, eof_ind = False, err_ind = False\<rparr> (ini0, tmpsec)))
          = fst (fst (parse_loop \<lparr>unread = ?tail,
                       fail_after = None, eof_ind = False, err_ind = False\<rparr> (ini2, Some r)))"
      by simp
    also have "\<dots> = ini2\<lparr>sec_head := sec_head ini2 @ filter (\<lambda>s. pair_head s \<noteq> []) ss\<rparr>"
    proof (rule Cons.IH [OF oks _ f2])
      show "strictly_ascending (map name (sec_head ini2 @ ss))"
        using Cons.prems(2) by (simp add: s2)
    qed
    finally show ?thesis by (simp only: ini2)
  qed
qed


lemma foreach_pairs_record:
  "foreach_pairs record_triple nm ps acc = acc @ map (\<lambda>p. (nm, key p, val p)) ps"
  by (induction ps arbitrary: acc) (simp_all add: record_triple_def)

lemma foreach_sections_record:
  "foreach_sections record_triple ss acc
     = acc @ concat (map (\<lambda>s. map (\<lambda>p. (Some (name s), key p, val p)) (pair_head s)) ss)"
  by (induction ss arbitrary: acc) (simp_all add: foreach_pairs_record)

lemma traversal_eq:
  "traversal ini
     = map (\<lambda>p. (None, key p, val p)) (default_section ini)
       @ concat (map (\<lambda>s. map (\<lambda>p. (Some (name s), key p, val p)) (pair_head s)) (sec_head ini))"
  by (simp add: traversal_def ini_foreach_def foreach_pairs_record foreach_sections_record)

lemma concat_map_filter_nonempty:
  "concat (map (\<lambda>s. map (f s) (pair_head s)) (filter (\<lambda>s. pair_head s \<noteq> []) ss))
     = concat (map (\<lambda>s. map (f s) (pair_head s)) ss)"
  by (induction ss) auto

lemma traversal_without_empty_sections:
  "traversal (ini\<lparr>sec_head := filter (\<lambda>s. pair_head s \<noteq> []) (sec_head ini)\<rparr>) = traversal ini"
  by (simp add: traversal_eq concat_map_filter_nonempty)

lemma load_written:
  assumes rep: "representable ini"
    and fs: "fs fn = Some (spec_ini_text ini, None)"
  shows "loadinifromfile (makeini (flags ini)) (Some fn) fs
           = (0, ini\<lparr>sec_head := filter (\<lambda>s. pair_head s \<noteq> []) (sec_head ini)\<rparr>)"
proof -
  let ?fl = "flags ini"
  let ?secs = "concat (map (spec_section_text ?fl) (sec_head ini))"
  define ini1 where "ini1 = \<lparr>sec_head = [], default_section = default_section ini, flags = ?fl\<rparr>"
  from rep have pk: "list_all (pair_ok ?fl) (default_section ini)"
    and pasc: "strictly_ascending (map key (default_section ini))"
    and sk: "list_all (section_ok ?fl) (sec_head ini)"
    and sasc: "strictly_ascending (map name (sec_head ini))"
    by (simp_all add: representable_def pairs_ok_def)
  have "parse_loop \<lparr>unread = spec_ini_text ini, fail_after = None, eof_ind = False,
                     err_ind = False\<rparr> (makeini ?fl, Some Default_section)
        = parse_loop \<lparr>unread = newline # ?secs, fail_after = None, eof_ind = False,
                     err_ind = False\<rparr> (ini1, Some Default_section)"
    using parse_pairs [OF pk, of "makeini ?fl" Default_section "newline # ?secs"] pasc
    by (simp add: makeini_def spec_ini_text_def ini1_def)
  also have "\<dots> = parse_loop \<lparr>unread = ?secs, fail_after = None, eof_ind = False,
                     err_ind = False\<rparr> (ini1, Some Default_section)"
    using parse_loop_line [of "[]" ?secs "(ini1, Some Default_section)"]
    by (simp add: parse_line_blank)
  finally have "fst (fst (parse_loop \<lparr>unread = spec_ini_text ini, fail_after = None,
                     eof_ind = False, err_ind = False\<rparr> (makeini ?fl, Some Default_section)))
        = fst (fst (parse_loop \<lparr>unread = ?secs, fail_after = None, eof_ind = False,
                     err_ind = False\<rparr> (ini1, Some Default_section)))"
    by simp
  also have "\<dots> = ini1\<lparr>sec_head := sec_head ini1 @ filter (\<lambda>s. pair_head s \<noteq> []) (sec_head ini)\<rparr>"
    using sasc by (intro parse_sections [OF sk]) (simp_all add: ini1_def)
  also have "\<dots> = ini\<lparr>sec_head := filter (\<lambda>s. pair_head s \<noteq> []) (sec_head ini)\<rparr>"
    by (simp add: ini1_def)
  finally show ?thesis
    by (auto simp: loadinifromfile_def fopen_r_def fs split: prod.splits)
qed

text \<open>
  C4, as stated, fails: the claim is that every file structure without empty keys,
  without \<open>=\<close>, \<open>;\<close> and space in keys and section names and without newlines in
  values is read back with the same traversal. Without \<open>INIO_SPACE_AROUND_DELIM\<close> the
  value is scanned with \<open>%256[^ \n]\<close>, which stops at a space: the pair \<open>k\<close> with value
  \<open>a b\<close> is written as \<open>k=a b\<close> and read back with value \<open>a\<close>.
\<close>

theorem roundtrip_value_with_space:
  "writeinitofile \<lparr>sec_head = [], default_section = [\<lparr>key = ''k'', val = Some ''a b''\<rparr>],
                    flags = 0\<rparr> (Some ''f'') all_writable
     = (0, Some (''k=a b'' @ [newline, newline])) \<and>
   newinifromfile (Some ''f'') 0 (fs_holding (''k=a b'' @ [newline, newline]))
     = Some \<lparr>sec_head = [], default_section = [\<lparr>key = ''k'', val = Some ''a''\<rparr>], flags = 0\<rparr> \<and>
   traversal \<lparr>sec_head = [], default_section = [\<lparr>key = ''k'', val = Some ''a''\<rparr>], flags = 0\<rparr>
     \<noteq> traversal \<lparr>sec_head = [], default_section = [\<lparr>key = ''k'', val = Some ''a b''\<rparr>],
                    flags = 0\<rparr>"
  by code_simp

text \<open>
  The other conditions of the amended claim are needed as well. Each of the following
  file structures meets the conditions of the claim as stated and is not read back as it
  was: a pair without value when \<open>INIO_ALLOW_EMPTY\<close> is not set is not written; an empty
  value is read back as no value (or not at all); a key that begins with \<open>[\<close> is read
  as a section header; a section name ends at its first \<open>]\<close>; with
  \<open>INIO_SPACE_AROUND_DELIM\<close> white space before the value is skipped; white space before
  the key is skipped; a newline in a key ends the line; and a pair list that is not
  ascending (here the one that inserting \<open>c\<close>, \<open>a\<close>, \<open>b\<close> builds) comes back in
  another order. A key, name or value of 256 bytes or more does not fit the buffer of 256
  bytes that \<open>sscanf\<close> stores it in.
\<close>

lemma reread_absent_value:
  "reread \<lparr>sec_head = [], default_section = [\<lparr>key = ''k'', val = None\<rparr>], flags = 0\<rparr>
     = Some []"
  by code_simp

lemma reread_empty_value:
  "reread \<lparr>sec_head = [], default_section = [\<lparr>key = ''k'', val = Some []\<rparr>], flags = 2\<rparr>
     = Some [(None, ''k'', None)]"
  by code_simp

lemma reread_key_with_bracket:
  "reread \<lparr>sec_head = [], default_section = [\<lparr>key = ''[x]'', val = Some ''1''\<rparr>], flags = 0\<rparr>
     = Some []"
  by code_simp

lemma reread_name_with_bracket:
  "reread \<lparr>sec_head = [\<lparr>name = ''a]b'', pair_head = [\<lparr>key = ''k'', val = Some ''v''\<rparr>]\<rparr>],
            default_section = [], flags = 0\<rparr>
     = Some [(Some ''a'', ''k'', Some ''v'')]"
  by code_simp

lemma reread_value_after_tab:
  "reread \<lparr>sec_head = [],
            default_section = [\<lparr>key = ''k'', val = Some [CHR 0x09, CHR ''v'']\<rparr>], flags = 1\<rparr>
     = Some [(None, ''k'', Some ''v'')]"
  by code_simp

lemma reread_key_after_tab:
  "reread \<lparr>sec_head = [],
            default_section = [\<lparr>key = [CHR 0x09, CHR ''k''], val = Some ''1''\<rparr>], flags = 0\<rparr>
     = Some [(None, ''k'', Some ''1'')]"
  by code_simp

lemma reread_key_with_newline:
  "reread \<lparr>sec_head = [],
            default_section = [\<lparr>key = [CHR ''a'', newline, CHR ''b''], val = Some ''1''\<rparr>],
            flags = 0\<rparr>
     = Some [(None, ''b'', Some ''1'')]"
  by code_simp

lemma reread_not_ascending:
  "snd (pair_insert (snd (pair_insert (snd (pair_insert []
          (makepair (Some ''c'') (Some ''3''))))
          (makepair (Some ''a'') (Some ''1''))))
          (makepair (Some ''b'') (Some ''2'')))
     = [\<lparr>key = ''b'', val = Some ''2''\<rparr>, \<lparr>key = ''c'', val = Some ''3''\<rparr>,
        \<lparr>key = ''a'', val = Some ''1''\<rparr>] \<and>
   reread \<lparr>sec_head = [],
            default_section = [\<lparr>key = ''b'', val = Some ''2''\<rparr>, \<lparr>key = ''c'', val = Some ''3''\<rparr>,
                               \<lparr>key = ''a'', val = Some ''1''\<rparr>], flags = 0\<rparr>
     = Some [(None, ''a'', Some ''1''), (None, ''b'', Some ''2''), (None, ''c'', Some ''3'')]"
  by code_simp

text \<open>
  C4, amended. Let the file structure be \<open>representable\<close>: pair lists and section list
  strictly ascending; keys, names and values as \<open>key_ok\<close>, \<open>name_ok\<close> and \<open>val_ok\<close>
  require; a pair without value only if \<open>INIO_ALLOW_EMPTY\<close> is set. If
  \<open>writeinitofile\<close> succeeds and the text it wrote is read by \<open>newinifromfile\<close> with
  the same flags from a file that does not fail, the result is the file structure
  without its sections that have no pairs, and \<open>ini_foreach\<close> visits the same triples
  of section name, key and value in the same order.
\<close>

theorem write_then_read_roundtrip:
  assumes "representable ini"
    and "writeinitofile ini (Some out) writable = (0, Some content)"
    and "fs inp = Some (content, None)"
  shows "newinifromfile (Some inp) (flags ini) fs
           = Some (ini\<lparr>sec_head := filter (\<lambda>s. pair_head s \<noteq> []) (sec_head ini)\<rparr>) \<and>
         traversal (ini\<lparr>sec_head := filter (\<lambda>s. pair_head s \<noteq> []) (sec_head ini)\<rparr>)
           = traversal ini"
proof -
  from assms(2) have "content = spec_ini_text ini"
    by (simp add: writeinitofile_def spec_ini_text_def write_pairs_append write_sections_append
          split: if_splits)
  with load_written [OF assms(1), of fs inp] assms(3) show ?thesis
    by (simp add: newinifromfile_def traversal_without_empty_sections)
qed

theorem write_then_read_roundtrip_witness:
  "representable
     \<lparr>sec_head = [\<lparr>name = ''E'', pair_head = []\<rparr>,
                  \<lparr>name = ''S'', pair_head = [\<lparr>key = ''b'', val = Some ''2''\<rparr>,
                                            \<lparr>key = ''c'', val = None\<rparr>]\<rparr>],
      default_section = [\<lparr>key = ''a'', val = Some ''1''\<rparr>], flags = 2\<rparr> \<and>
   writeinitofile
     \<lparr>sec_head = [\<lparr>name = ''E'', pair_head = []\<rparr>,
                  \<lparr>name = ''S'', pair_head = [\<lparr>key = ''b'', val = Some ''2''\<rparr>,
                                            \<lparr>key = ''c'', val = None\<rparr>]\<rparr>],
      default_section = [\<lparr>key = ''a'', val = Some ''1''\<rparr>], flags = 2\<rparr> (Some ''out'') all_writable
     = (0, Some (''a=1'' @ [newline, newline] @ ''[S]'' @ [newline] @ ''b=2'' @ [newline]
                 @ ''c='' @ [newline, newline])) \<and>
   newinifromfile (Some ''in'') 2
       (fs_holding (''a=1'' @ [newline, newline] @ ''[S]'' @ [newline] @ ''b=2'' @ [newline]
                    @ ''c='' @ [newline, newline]))
     = Some \<lparr>sec_head = [\<lparr>name = ''S'', pair_head = [\<lparr>key = ''b'', val = Some ''2''\<rparr>,
                                                  \<lparr>key = ''c'', val = None\<rparr>]\<rparr>],
             default_section = [\<lparr>key = ''a'', val = Some ''1''\<rparr>], flags = 2\<rparr> \<and>
   traversal \<lparr>sec_head = [\<lparr>name = ''S'', pair_head = [\<lparr>key = ''b'', val = Some ''2''\<rparr>,
                                                  \<lparr>key = ''c'', val = None\<rparr>]\<rparr>],
             default_section = [\<lparr>key = ''a'', val = Some ''1''\<rparr>], flags = 2\<rparr>
     = traversal
         \<lparr>sec_head = [\<lparr>name = ''E'', pair_head = []\<rparr>,
                  \<lparr>name = ''S'', pair_head = [\<lparr>key = ''b'', val = Some ''2''\<rparr>,
                                            \<lparr>key = ''c'', val = None\<rparr>]\<rparr>],
          default_section = [\<lparr>key = ''a'', val = Some ''1''\<rparr>], flags = 2\<rparr>"
proof -
  have h1: "representable
     \<lparr>sec_head = [\<lparr>name = ''E'', pair_head = []\<rparr>,
                  \<lparr>name = ''S'', pair_head = [\<lparr>key = ''b'', val = Some ''2''\<rparr>,
                                            \<lparr>key = ''c'', val = None\<rparr>]\<rparr>],
      default_section = [\<lparr>key = ''a'', val = Some ''1''\<rparr>], flags = 2\<rparr>"
    by code_simp
  have h2: "writeinitofile
     \<lparr>sec_head = [\<lparr>name = ''E'', pair_head = []\<rparr>,
                  \<lparr>name = ''S'', pair_head = [\<lparr>key = ''b'', val = Some ''2''\<rparr>,
                                            \<lparr>key = ''c'', val = None\<rparr>]\<rparr>],
      default_section = [\<lparr>key = ''a'', val = Some ''1''\<rparr>], flags = 2\<rparr> (Some ''out'') all_writable
     = (0, Some (''a=1'' @ [newline, newline] @ ''[S]'' @ [newline] @ ''b=2'' @ [newline]
                 @ ''c='' @ [newline, newline]))"
    by code_simp
  have h3: "fs_holding (''a=1'' @ [newline, newline] @ ''[S]'' @ [newline] @ ''b=2'' @ [newline]
                    @ ''c='' @ [newline, newline]) ''in''
     = Some (''a=1'' @ [newline, newline] @ ''[S]'' @ [newline] @ ''b=2'' @ [newline]
                    @ ''c='' @ [newline, newline], None)"
    by (simp add: fs_holding_def)
  from write_then_read_roundtrip
         [where fs = "fs_holding (''a=1'' @ [newline, newline] @ ''[S]'' @ [newline] @ ''b=2''
                                  @ [newline] @ ''c='' @ [newline, newline])"
            and inp = "''in''", OF h1 h2 h3] h1 h2
  show ?thesis
    by simp
qed


subsection \<open>The buffers of the loop body\<close>

text \<open>
  C7. The claim is that every input line is recognised in a fixed order (section
  header, then key and value, then, only with \<open>INIO_ALLOW_EMPTY\<close>, a key alone), that the
  first match wins, and that a line matching none is ignored while the parse goes on.
  The formats limit a field to 256 bytes, which is the size of the buffers, so a field
  of 256 bytes is stored with its terminator past the end of the buffer. A line of 256
  bytes \<open>k\<close> is read by \<open>fgets\<close> in one piece; it is no section header, and with
  \<open>INIO_ALLOW_EMPTY\<close> it matches the format for a key alone, so the claim has this key
  inserted. But the format for key and value, tried before, has stored 256 bytes in
  \<open>tmpkey\<close>: the body of the loop has undefined behaviour on this line. The same
  holds for the line \<open>a=\<close> with a value of 256 bytes \<open>v\<close>, which matches the format for
  key and value and fills \<open>tmpval\<close>.
\<close>

theorem parse_line_field_fills_buffer:
  "fgets 512 \<lparr>unread = replicate 256 CHR ''k'' @ [newline], fail_after = None,
                eof_ind = False, err_ind = False\<rparr>
     = (Some (replicate 256 CHR ''k'' @ [newline]),
        \<lparr>unread = [], fail_after = None, eof_ind = False, err_ind = False\<rparr>) \<and>
   sscanf (replicate 256 CHR ''k'' @ [newline]) fmt_section = Assigned [] \<and>
   sscanf (replicate 256 CHR ''k'' @ [newline]) (keyvalfmt INIO_ALLOW_EMPTY)
     = Assigned [replicate 256 CHR ''k''] \<and>
   overflows (sscanf (replicate 256 CHR ''k'' @ [newline]) (keyvalfmt INIO_ALLOW_EMPTY)) \<and>
   sscanf (replicate 256 CHR ''k'' @ [newline]) fmt_key_only
     = Assigned [replicate 256 CHR ''k''] \<and>
   loop_body (replicate 256 CHR ''k'' @ [newline])
       (makeini INIO_ALLOW_EMPTY, Some Default_section) = None \<and>
   sscanf (''a='' @ replicate 256 CHR ''v'' @ [newline]) (keyvalfmt INIO_NONE)
     = Assigned [''a'', replicate 256 CHR ''v''] \<and>
   loop_body (''a='' @ replicate 256 CHR ''v'' @ [newline])
       (makeini INIO_NONE, Some Default_section) = None"
  by code_simp

text \<open>
  Where no field fills its buffer the body is \<open>parse_line\<close>, which follows the order
  of the claim (\<open>parse_line_header\<close>, \<open>parse_line_keyval\<close>, \<open>parse_line_key_only\<close>,
  \<open>parse_line_ignored\<close> above). The loop applies the body to every line of the file in
  turn, whatever the lines are; a blank line and a line that begins with \<open>;\<close> leave the
  state as it was.
\<close>

lemma loop_body_in_bounds:
  "\<not> line_overflows (flags (fst st)) tmpline \<Longrightarrow> loop_body tmpline st = Some (parse_line tmpline st)"
  by (simp add: loop_body_def)

lemma parse_loop_lines:
  assumes "list_all (\<lambda>l. newline \<notin> set l \<and> length l \<le> 510) ls"
  shows "parse_loop \<lparr>unread = concat (map (\<lambda>l. l @ [newline]) ls), fail_after = None,
                      eof_ind = False, err_ind = False\<rparr> st
           = (foldl (\<lambda>st l. parse_line (l @ [newline]) st) st ls,
              \<lparr>unread = [], fail_after = None, eof_ind = True, err_ind = False\<rparr>)"
  using assms
proof (induction ls arbitrary: st)
  case Nil
  then show ?case by (simp add: parse_loop_end)
next
  case (Cons l ls)
  then have nl: "newline \<notin> set l" and len: "length l \<le> 510"
    and rest: "list_all (\<lambda>l. newline \<notin> set l \<and> length l \<le> 510) ls"
    by simp_all
  from parse_loop_line [OF nl len, of "concat (map (\<lambda>l. l @ [newline]) ls)" st]
    Cons.IH [OF rest, of "parse_line (l @ [newline]) st"]
  show ?case by simp
qed

lemma parse_line_comment:
  "parse_line (CHR '';'' # rest) st = st"
proof -
  have c: "c_str (CHR '';'' # rest) = CHR '';'' # c_str rest"
    by (simp add: c_str_def)
  have "sscanf (CHR '';'' # rest) fmt_section = Assigned []"
    and "sscanf (CHR '';'' # rest) (keyvalfmt fl) = Assigned []"
    and "sscanf (CHR '';'' # rest) fmt_key_only = Assigned []" for fl
    by (simp_all add: sscanf_def c fmt_section_def keyvalfmt_def fmt_spaces_def
          fmt_no_spaces_def fmt_key_only_def isspace_def)
  then show ?thesis
    by (cases st) (simp add: parse_line_def)
qed

end
